theory Spec2Isabelle
  imports Main
begin

section \<open>The page contents resolver\<close>

text \<open>
  Source: \<^verbatim>\<open>packages/hash/backend/src/graphql/resolvers/pages/contents.ts\<close>.
  A page's properties hold a list \<^verbatim>\<open>contents\<close> of references, each a pair of a
  namespace id and an entity id. The resolver fetches every reference through
  \<^verbatim>\<open>dataSources.db.getEntity\<close>, then walks the fetched array and throws an
  \<^verbatim>\<open>ApolloError\<close> with code \<^verbatim>\<open>NOT_FOUND\<close> at the first falsy entry.
  The database adapter is not part of the sources; its \<^verbatim>\<open>getEntity\<close> is a
  parameter of the model, a lookup that yields \<open>None\<close> where the adapter
  resolves to \<^verbatim>\<open>undefined\<close>.
\<close>

record content_ref =
  namespaceId :: string
  entityId :: string

datatype ApolloError = ApolloError (message: string) (code: string)

type_synonym 'b getEntity = "string \<Rightarrow> string \<Rightarrow> 'b option"

text \<open>The template literal of the thrown error.\<close>

definition not_found_error :: "content_ref \<Rightarrow> ApolloError" where
  "not_found_error c =
     ApolloError (''entity '' @ entityId c @ '' not found in namespace '' @ namespaceId c)
       ''NOT_FOUND''"

text \<open>
  \<^verbatim>\<open>entities.forEach((entity, i) => { if (!entity) { ... contents[i] ... throw } })\<close>:
  the walk carries the index \<open>i\<close> and reads \<^verbatim>\<open>contents[i]\<close> when it throws. The
  fetched array is the image of \<^verbatim>\<open>contents\<close>, so the index is always in range.
\<close>

fun forEach_check :: "content_ref list \<Rightarrow> nat \<Rightarrow> 'b option list \<Rightarrow> ApolloError option" where
  "forEach_check cs i [] = None"
| "forEach_check cs i (e # es) =
     (case e of
        None \<Rightarrow> Some (not_found_error (cs ! i))
      | Some b \<Rightarrow> forEach_check cs (Suc i) es)"

text \<open>The arrow function mapped over \<^verbatim>\<open>contents\<close>: one lookup per reference.\<close>

definition fetch :: "'b getEntity \<Rightarrow> content_ref \<Rightarrow> 'b option" where
  "fetch getEntity c = getEntity (namespaceId c) (entityId c)"

definition contents :: "'b getEntity \<Rightarrow> content_ref list \<Rightarrow> ApolloError + 'b list" where
  "contents getEntity cs =
     (let entities = map (fetch getEntity) cs
      in case forEach_check cs 0 entities of
           Some err \<Rightarrow> Inl err
         | None \<Rightarrow> Inr (map the entities))"

subsection \<open>Concrete stores and pages\<close>

text \<open>
  A store holding only entity \<open>e1\<close> of namespace \<open>n\<close>, and a page that references
  \<open>e1\<close> and then the absent \<open>e2\<close>.
\<close>

definition store1 :: "nat getEntity" where
  "store1 ns eid = (if ns = ''n'' \<and> eid = ''e1'' then Some 7 else None)"

definition page_missing :: "content_ref list" where
  "page_missing = [\<lparr>namespaceId = ''n'', entityId = ''e1''\<rparr>, \<lparr>namespaceId = ''n'', entityId = ''e2''\<rparr>]"

definition page_present :: "content_ref list" where
  "page_present = [\<lparr>namespaceId = ''n'', entityId = ''e1''\<rparr>, \<lparr>namespaceId = ''n'', entityId = ''e1''\<rparr>]"

definition store2 :: "string getEntity" where
  "store2 ns eid = (if ns = ''n'' then Some (''block-'' @ eid) else None)"

definition page_two :: "content_ref list" where
  "page_two = [\<lparr>namespaceId = ''n'', entityId = ''b''\<rparr>, \<lparr>namespaceId = ''n'', entityId = ''a''\<rparr>]"

section \<open>Ontology type record ids\<close>

text \<open>
  Source: the ontology metadata module of the subgraph library (\<^verbatim>\<open>unnamed/part_004\<close>).
  An \<^verbatim>\<open>OntologyTypeRecordId\<close> pairs a base URL with a version. The version is a
  JavaScript number, that is, a double; the record ids this development is about carry
  integer-valued versions. Such a version is modelled by its value, an \<open>int\<close>, and
  \<open>is_Number_integer\<close> says which integers are values of doubles: those whose magnitude
  has at most 53 significant bits and lies below \<open>2\<^sup>1\<^sup>0\<^sup>2\<^sup>4\<close>. An integer that is not
  the value of a double is not a version, and every statement below about versions
  carries \<open>is_Number_integer\<close> or the stronger \<open>is_safe_integer\<close>
  (\<^verbatim>\<open>Number.isSafeInteger\<close>: magnitude below \<open>2\<^sup>5\<^sup>3\<close>).
\<close>

record OntologyTypeRecordId =
  baseUrl :: string
  version :: int

definition digit_char :: "nat \<Rightarrow> char" where
  "digit_char d = char_of (48 + d)"

function decimal :: "nat \<Rightarrow> string" where
  "decimal n = (if n < 10 then [digit_char n] else decimal (n div 10) @ [digit_char (n mod 10)])"
  by pat_completeness auto
termination
  by (relation "measure id") auto

declare decimal.simps [simp del]

text \<open>
  Rounding of a natural number to the nearest double, ties to even: a number below
  \<open>2\<^sup>5\<^sup>3\<close> is a double; a larger one keeps its 53 leading bits \<open>q\<close>, and is rounded
  up when the remainder \<open>r\<close> exceeds half of the last place \<open>h\<close>, or equals it and
  \<open>q\<close> is odd.
\<close>

function bit_length :: "nat \<Rightarrow> nat" where
  "bit_length n = (if n = 0 then 0 else Suc (bit_length (n div 2)))"
  by pat_completeness auto
termination
  by (relation "measure id") auto

declare bit_length.simps [simp del]

definition to_double :: "nat \<Rightarrow> nat" where
  "to_double v =
     (if v < 2 ^ 53 then v
      else
        let e = bit_length v - 53;
            q = v div 2 ^ e;
            r = v mod 2 ^ e;
            h = 2 ^ (e - 1)
        in (if h < r \<or> (r = h \<and> odd q) then Suc q else q) * 2 ^ e)"

definition is_double :: "nat \<Rightarrow> bool" where
  "is_double v = (to_double v = v \<and> v < 2 ^ 1024)"

definition is_Number_integer :: "int \<Rightarrow> bool" where
  "is_Number_integer i = is_double (nat \<bar>i\<bar>)"

definition is_safe_integer :: "int \<Rightarrow> bool" where
  "is_safe_integer i = (\<bar>i\<bar> < 2 ^ 53)"

text \<open>
  A template literal converts a number with \<^verbatim>\<open>Number::toString\<close> (ECMAScript, radix 10).
  For a positive \<open>x\<close> it takes integers \<open>n\<close>, \<open>k\<close>, \<open>s\<close> with \<open>k \<ge> 1\<close>,
  \<open>10\<^bsup>k-1\<^esup> \<le> s < 10\<^bsup>k\<^esup>\<close> and \<open>s \<times> 10\<^bsup>n-k\<^esup>\<close> rounding to \<open>x\<close>, with \<open>k\<close> as small as
  possible and, among those, \<open>s \<times> 10\<^bsup>n-k\<^esup>\<close> closest to \<open>x\<close>, an even \<open>s\<close> on a tie.

  \<open>shortest x z\<close> searches for these digits, from the largest power of ten \<open>10\<^bsup>z\<^esup>\<close>
  downwards: at each power the candidates are the two multiples \<open>lo\<close> and \<open>hi\<close> of it
  around \<open>x\<close>, and the result \<open>(s, z)\<close> stands for \<open>s \<times> 10\<^bsup>z\<^esup>\<close>. With \<open>k\<close> the number of
  digits of \<open>s\<close> once its trailing zeros are dropped, \<open>n\<close> is the number of digits of
  \<open>s \<times> 10\<^bsup>z\<^esup>\<close>.

  For an integer-valued \<open>x\<close> one has \<open>k \<le> n\<close>, and then: if \<open>n \<le> 21\<close> the result is the
  \<open>k\<close> digits followed by \<open>n - k\<close> zeros; otherwise it is the exponent form, the first
  digit, then a point and the other digits when \<open>k > 1\<close>, then \<^verbatim>\<open>e+\<close> and the decimal
  digits of \<open>n - 1\<close>. Zero is \<^verbatim>\<open>0\<close>, and a negative number is a minus sign followed by
  the conversion of its negation.
\<close>

fun shortest :: "nat \<Rightarrow> nat \<Rightarrow> nat \<times> nat" where
  "shortest x 0 = (x, 0)"
| "shortest x (Suc z) =
     (let p = 10 ^ Suc z;
          lo = x div p;
          hi = Suc lo;
          lo_ok = (0 < lo \<and> to_double (lo * p) = x);
          hi_ok = (to_double (hi * p) = x)
      in if lo_ok \<and> (\<not> hi_ok \<or> x - lo * p < hi * p - x \<or> (x - lo * p = hi * p - x \<and> even lo))
         then (lo, Suc z)
         else if hi_ok then (hi, Suc z)
         else shortest x z)"

declare shortest.simps(2) [simp del]

definition strip_trailing_zeros :: "string \<Rightarrow> string" where
  "strip_trailing_zeros ds = rev (dropWhile (\<lambda>c. c = CHR ''0'') (rev ds))"

definition exponent_form :: "string \<Rightarrow> nat \<Rightarrow> string" where
  "exponent_form m n =
     hd m # (if tl m = [] then [] else CHR ''.'' # tl m) @ ''e+'' @ decimal (n - 1)"

definition Number_toString :: "nat \<Rightarrow> string" where
  "Number_toString x =
     (let (s, z) = shortest x (length (decimal x) - 1);
          ds = decimal s;
          n = length ds + z
      in if n \<le> 21 then ds @ replicate z CHR ''0''
         else exponent_form (strip_trailing_zeros ds) n)"

definition number_to_string :: "int \<Rightarrow> string" where
  "number_to_string i =
     (if i < 0 then CHR ''-'' # Number_toString (nat (- i)) else Number_toString (nat i))"

text \<open>\<^verbatim>\<open>`${ontologyTypeRecordId.baseUrl}v/${ontologyTypeRecordId.version}`\<close>\<close>

definition ontologyTypeRecordIdToVersionedUrl :: "OntologyTypeRecordId \<Rightarrow> string" where
  "ontologyTypeRecordIdToVersionedUrl ontologyTypeRecordId =
     baseUrl ontologyTypeRecordId @ ''v/'' @ number_to_string (version ontologyTypeRecordId)"

text \<open>
  The decimal rendering of an integer, and the reading of a decimal numeral back, written
  from the meaning of positional notation and not from the code: \<open>decimal_rendering\<close> is
  what "the decimal rendering of its integer version" denotes, the digits of the
  magnitude after a minus sign when negative, and \<open>signed_decimal_value\<close> reads it back.
\<close>

definition decimal_rendering :: "int \<Rightarrow> string" where
  "decimal_rendering i = (if i < 0 then CHR ''-'' # decimal (nat (- i)) else decimal (nat i))"

definition digit_value :: "char \<Rightarrow> nat" where
  "digit_value c = of_char c - 48"

definition decimal_value :: "string \<Rightarrow> nat" where
  "decimal_value s = foldl (\<lambda>a c. 10 * a + digit_value c) 0 s"

definition signed_decimal_value :: "string \<Rightarrow> int" where
  "signed_decimal_value s =
     (case s of
        [] \<Rightarrow> 0
      | c # cs \<Rightarrow> if c = CHR ''-'' then - int (decimal_value cs) else int (decimal_value s))"

text \<open>
  The number an unsigned numeral denotes, in plain or in exponent form: the digits of
  the mantissa without its point, scaled so that the first digit has the weight the
  exponent gives.
\<close>

definition denotation :: "string \<Rightarrow> nat" where
  "denotation str =
     (if CHR ''e'' \<in> set str
      then
        let mant = takeWhile (\<lambda>c. c \<noteq> CHR ''e'') str;
            m = filter (\<lambda>c. c \<noteq> CHR ''.'') mant;
            ex = decimal_value (drop (length mant + 2) str)
        in decimal_value m * 10 ^ (Suc ex - length m)
      else decimal_value str)"

definition is_digit :: "char \<Rightarrow> bool" where
  "is_digit c = (48 \<le> (of_char c :: nat) \<and> (of_char c :: nat) \<le> 57)"

definition numeral_char :: "char \<Rightarrow> bool" where
  "numeral_char c = (is_digit c \<or> c = CHR ''.'' \<or> c = CHR ''e'' \<or> c = CHR ''+'')"

definition ends_with_slash :: "string \<Rightarrow> bool" where
  "ends_with_slash s = (s \<noteq> [] \<and> last s = CHR ''/'')"

definition user_type_v3 :: OntologyTypeRecordId where
  "user_type_v3 = \<lparr>baseUrl = ''https://hash.ai/@hash/types/entity-type/user/'', version = 3\<rparr>"

definition user_type_bumped :: OntologyTypeRecordId where
  "user_type_bumped =
     \<lparr>baseUrl = ''https://hash.ai/@hash/types/entity-type/user/'', version = 2\<rparr>\<lparr>version := 2 + 1\<rparr>"

definition user_type_v2_64 :: OntologyTypeRecordId where
  "user_type_v2_64 =
     \<lparr>baseUrl = ''https://hash.ai/@hash/types/entity-type/user/'', version = 2 ^ 64\<rparr>"

definition user_type_v1e21 :: OntologyTypeRecordId where
  "user_type_v1e21 =
     \<lparr>baseUrl = ''https://hash.ai/@hash/types/entity-type/user/'', version = 10 ^ 21\<rparr>"

subsection \<open>The record id type guard\<close>

text \<open>
  \<^verbatim>\<open>isOntologyTypeRecordId(editionId: object)\<close> probes an arbitrary object at run time, so
  the object is a finite map from field names to JavaScript values. Of a number only
  \<^verbatim>\<open>Number.isInteger\<close> is asked: a number is an integer, some other finite value, or one
  of \<^verbatim>\<open>NaN\<close> and the infinities. \<^verbatim>\<open>validateBaseUrl\<close> belongs to the external Block
  Protocol type system; it is a parameter that answers \<open>Ok\<close> or \<open>Err\<close>.
\<close>

datatype js_number = Integral int | Fractional | NaN | Infinite

datatype js_value =
    JUndefined
  | JNull
  | JBoolean bool
  | JNumber js_number
  | JString string

type_synonym js_object = "string \<rightharpoonup> js_value"

datatype result_type = Ok | Err

fun Number_isInteger :: "js_number \<Rightarrow> bool" where
  "Number_isInteger (Integral i) = True"
| "Number_isInteger Fractional = False"
| "Number_isInteger NaN = False"
| "Number_isInteger Infinite = False"

definition isOntologyTypeRecordId :: "(string \<Rightarrow> result_type) \<Rightarrow> js_object \<Rightarrow> bool" where
  "isOntologyTypeRecordId validateBaseUrl editionId =
     (case editionId ''baseId'' of
        Some (JString baseId) \<Rightarrow>
          validateBaseUrl baseId \<noteq> Err \<and>
          (case editionId ''version'' of
             Some (JNumber v) \<Rightarrow> Number_isInteger v
           | _ \<Rightarrow> False)
      | _ \<Rightarrow> False)"

text \<open>
  The shape the guard is declared to recognise, read off the type
  \<^verbatim>\<open>OntologyTypeRecordId = { baseUrl: BaseUrl; version: number }\<close>: a string field
  \<^verbatim>\<open>baseUrl\<close> that validates and an integer field \<^verbatim>\<open>version\<close>.
\<close>

definition has_record_id_shape :: "(string \<Rightarrow> result_type) \<Rightarrow> js_object \<Rightarrow> bool" where
  "has_record_id_shape validateBaseUrl obj =
     (case obj ''baseUrl'' of
        Some (JString b) \<Rightarrow>
          validateBaseUrl b \<noteq> Err \<and>
          (case obj ''version'' of
             Some (JNumber v) \<Rightarrow> Number_isInteger v
           | _ \<Rightarrow> False)
      | _ \<Rightarrow> False)"

definition accept_https :: "string \<Rightarrow> result_type" where
  "accept_https url = (if take 8 url = ''https://'' \<and> url \<noteq> [] \<and> last url = CHR ''/'' then Ok else Err)"

definition record_id_object :: js_object where
  "record_id_object =
     [''baseUrl'' \<mapsto> JString ''https://hash.ai/@hash/types/entity-type/user/'',
      ''version'' \<mapsto> JNumber (Integral 1)]"

definition legacy_object :: js_object where
  "legacy_object =
     [''baseId'' \<mapsto> JString ''https://hash.ai/@hash/types/entity-type/user/'',
      ''version'' \<mapsto> JNumber (Integral 1)]"

subsection \<open>Owned and external ontology metadata\<close>

text \<open>
  \<^verbatim>\<open>OntologyElementMetadata\<close> is the union of two object types that differ in one field
  of \<^verbatim>\<open>custom\<close>: \<^verbatim>\<open>ownedById\<close> or \<^verbatim>\<open>fetchedAt\<close>. The union carries no tag; the two
  predicates cast the value and probe the field against \<^verbatim>\<open>undefined\<close>. The model is
  the object both casts read: a record whose two distinguishing fields may be absent.
  Field \<^verbatim>\<open>recordId\<close> is named \<open>typeRecordId\<close> here, since entity metadata has a field
  of that name too. Timestamps and account ids are opaque; provenance and the temporal
  bounds are declared outside the sources and only carried along.
\<close>

type_synonym Timestamp = string
type_synonym Uuid = nat
type_synonym OwnedById = Uuid
type_synonym EntityUuid = Uuid
type_synonym AccountId = Uuid

datatype temporal_bound = Inclusive nat | Exclusive nat | Unbounded

record TimeInterval =
  interval_start :: temporal_bound
  interval_end :: temporal_bound

record ProvenanceMetadata =
  recordCreatedById :: AccountId

record TemporalVersioning =
  transactionTime :: TimeInterval

record OntologyElementCustom =
  ownedById :: "OwnedById option"
  fetchedAt :: "Timestamp option"
  provenance :: ProvenanceMetadata
  temporalVersioning :: TemporalVersioning

record OntologyElementMetadata =
  typeRecordId :: OntologyTypeRecordId
  custom :: OntologyElementCustom

text \<open>
  Membership in the two object types and in their union. An object type asks for its
  fields to be present and tolerates further ones, so a value is an
  \<^verbatim>\<open>OwnedOntologyElementMetadata\<close> when \<^verbatim>\<open>ownedById\<close> is there, an
  \<^verbatim>\<open>ExternalOntologyElementMetadata\<close> when \<^verbatim>\<open>fetchedAt\<close> is there.
\<close>

definition is_OwnedOntologyElementMetadata :: "OntologyElementMetadata \<Rightarrow> bool" where
  "is_OwnedOntologyElementMetadata m =
     (case ownedById (custom m) of None \<Rightarrow> False | Some owner \<Rightarrow> True)"

definition is_ExternalOntologyElementMetadata :: "OntologyElementMetadata \<Rightarrow> bool" where
  "is_ExternalOntologyElementMetadata m =
     (case fetchedAt (custom m) of None \<Rightarrow> False | Some time \<Rightarrow> True)"

definition is_OntologyElementMetadata :: "OntologyElementMetadata \<Rightarrow> bool" where
  "is_OntologyElementMetadata m =
     (is_OwnedOntologyElementMetadata m \<or> is_ExternalOntologyElementMetadata m)"

text \<open>\<^verbatim>\<open>(metadata as ExternalOntologyElementMetadata).custom.fetchedAt !== undefined\<close>\<close>

definition isExternalOntologyElementMetadata :: "OntologyElementMetadata \<Rightarrow> bool" where
  "isExternalOntologyElementMetadata m = (fetchedAt (custom m) \<noteq> None)"

text \<open>\<^verbatim>\<open>(metadata as OwnedOntologyElementMetadata).custom.ownedById !== undefined\<close>\<close>

definition isOwnedOntologyElementMetadata :: "OntologyElementMetadata \<Rightarrow> bool" where
  "isOwnedOntologyElementMetadata m = (ownedById (custom m) \<noteq> None)"

definition owned_metadata :: OntologyElementMetadata where
  "owned_metadata =
     \<lparr>typeRecordId = user_type_v3,
      custom = \<lparr>ownedById = Some 1, fetchedAt = None,
                provenance = \<lparr>recordCreatedById = 1\<rparr>,
                temporalVersioning =
                  \<lparr>transactionTime = \<lparr>interval_start = Inclusive 0, interval_end = Unbounded\<rparr>\<rparr>\<rparr>\<rparr>"

definition owned_and_fetched_metadata :: OntologyElementMetadata where
  "owned_and_fetched_metadata =
     owned_metadata\<lparr>custom := (custom owned_metadata)\<lparr>fetchedAt := Some ''2023-06-01T00:00:00Z''\<rparr>\<rparr>"

section \<open>Org memberships\<close>

text \<open>
  Source: \<^verbatim>\<open>apps/hash-api/src/graph/knowledge/system-types/org-membership.ts\<close>.
  An entity id is an owner and an entity UUID; identifiers are opaque and stand as
  natural numbers. The field \<^verbatim>\<open>metadata.recordId.entityId\<close> is named \<open>entity_id\<close>, the
  name \<open>entityId\<close> being taken by the page references above.
\<close>

type_synonym VersionedUrl = string
type_synonym EntityId = "OwnedById \<times> EntityUuid"

record EntityRecordId =
  entity_id :: EntityId
  edition :: nat

record EntityMetadata =
  recordId :: EntityRecordId
  entityTypeId :: VersionedUrl

record LinkData =
  leftEntityId :: EntityId
  rightEntityId :: EntityId

record Entity =
  metadata :: EntityMetadata
  properties :: "(string \<times> string) list"

record LinkEntity = Entity +
  linkData :: LinkData

record OrgMembership =
  linkEntity :: LinkEntity

text \<open>
  The class \<^verbatim>\<open>EntityTypeMismatchError(entityId, expectedEntityTypeId, actualEntityTypeId)\<close>
  of \<^verbatim>\<open>lib/error\<close>, together with the other failures the graph layer reports. The
  mismatch error of a link end names the whole list of admitted types; it is the
  constructor \<open>LinkEndTypeMismatch\<close>.
\<close>

datatype graph_error =
    EntityTypeMismatchError (mismatch_entityId: EntityId) (expectedEntityTypeId: VersionedUrl)
      (actualEntityTypeId: VersionedUrl)
  | LinkEndTypeMismatch EntityId "VersionedUrl list" VersionedUrl
  | NotFound EntityId
  | ValidationError

text \<open>
  \<^verbatim>\<open>SYSTEM_TYPES\<close> is a table filled at start-up and not part of the sources; it is a
  parameter. An entry holds the type's \<^verbatim>\<open>schema.$id\<close>.

  Modelled from the spec: the link destination constraints of an entity type, which the
  missing \<^verbatim>\<open>createLinkEntity\<close> checks, stand as the lists of entity types admitted at the
  left and at the right end of a link of that type.
\<close>

record EntityTypeWithMetadata =
  schema_id :: VersionedUrl
  allowedLeftTypes :: "VersionedUrl list"
  allowedRightTypes :: "VersionedUrl list"

record SystemTypes =
  entityType_user :: EntityTypeWithMetadata
  entityType_org :: EntityTypeWithMetadata
  linkEntityType_orgMembership :: EntityTypeWithMetadata

definition getOrgMembershipFromLinkEntity :: "SystemTypes \<Rightarrow> LinkEntity \<Rightarrow> graph_error + OrgMembership" where
  "getOrgMembershipFromLinkEntity SYSTEM_TYPES le =
     (if entityTypeId (metadata le) \<noteq> schema_id (linkEntityType_orgMembership SYSTEM_TYPES)
      then Inl (EntityTypeMismatchError
                  (entity_id (recordId (metadata le)))
                  (schema_id (entityType_user SYSTEM_TYPES))
                  (entityTypeId (metadata le)))
      else Inr \<lparr>linkEntity = le\<rparr>)"

definition hash_system_types :: SystemTypes where
  "hash_system_types =
     \<lparr>entityType_user =
        \<lparr>schema_id = ''https://hash.ai/@hash/types/entity-type/user/v/1'',
         allowedLeftTypes = [], allowedRightTypes = []\<rparr>,
      entityType_org =
        \<lparr>schema_id = ''https://hash.ai/@hash/types/entity-type/org/v/1'',
         allowedLeftTypes = [], allowedRightTypes = []\<rparr>,
      linkEntityType_orgMembership =
        \<lparr>schema_id = ''https://hash.ai/@hash/types/entity-type/org-membership/v/1'',
         allowedLeftTypes = [''https://hash.ai/@hash/types/entity-type/user/v/1''],
         allowedRightTypes = [''https://hash.ai/@hash/types/entity-type/org/v/1'']\<rparr>\<rparr>"

definition friendship_link :: LinkEntity where
  "friendship_link =
     \<lparr>metadata =
        \<lparr>recordId = \<lparr>entity_id = (7, 42), edition = 1\<rparr>,
         entityTypeId = ''https://hash.ai/@hash/types/entity-type/friend-of/v/1''\<rparr>,
      properties = [],
      linkData = \<lparr>leftEntityId = (7, 10), rightEntityId = (7, 11)\<rparr>\<rparr>"

section \<open>The graph store\<close>

text \<open>
  Modelled from the spec: the Temporal Versioning Engine (4.1) and the Graph Store (4.4)
  are missing from the sources. A stored version is a row of the persisted layout: the
  entity payload (its id, type and properties), the link endpoints when the entity is a
  link, and the transaction-time and decision-time intervals. Transaction time is the
  store's own monotonic counter: a mutation runs as one transaction at the instant
  \<open>clock\<close>, and the counter advances when it commits. Entity UUIDs are drawn from a second
  counter.
\<close>

record VersionedRecord =
  payload :: Entity
  link :: "LinkData option"
  transaction :: TimeInterval
  decision :: TimeInterval

record GraphStore =
  versions :: "VersionedRecord list"
  clock :: nat
  next_uuid :: nat

type_synonym 'a graph_result = "(graph_error + 'a) \<times> GraphStore"

definition identity :: "VersionedRecord \<Rightarrow> EntityId" where
  "identity v = entity_id (recordId (metadata (payload v)))"

definition is_open :: "VersionedRecord \<Rightarrow> bool" where
  "is_open v = (interval_end (transaction v) = Unbounded)"

text \<open>
  Modelled from the spec: the closed-open reading of the bounds; \<open>Inclusive a\<close> and
  \<open>Exclusive b\<close> bound \<open>[a, b)\<close>, and an unbounded upper bound means still current.
  The first instant of an interval and its exclusive limit, if it has one, decide
  containment; two intervals overlap when they share an instant.
\<close>

fun first_instant :: "temporal_bound \<Rightarrow> nat" where
  "first_instant (Inclusive a) = a"
| "first_instant (Exclusive a) = Suc a"
| "first_instant Unbounded = 0"

fun limit :: "temporal_bound \<Rightarrow> nat option" where
  "limit (Inclusive b) = Some (Suc b)"
| "limit (Exclusive b) = Some b"
| "limit Unbounded = None"

definition contains :: "TimeInterval \<Rightarrow> nat \<Rightarrow> bool" where
  "contains i t =
     (first_instant (interval_start i) \<le> t \<and>
      (case limit (interval_end i) of None \<Rightarrow> True | Some u \<Rightarrow> t < u))"

definition overlaps :: "TimeInterval \<Rightarrow> TimeInterval \<Rightarrow> bool" where
  "overlaps i j =
     (let t = max (first_instant (interval_start i)) (first_instant (interval_start j))
      in contains i t \<and> contains j t)"

definition current :: "GraphStore \<Rightarrow> EntityId \<Rightarrow> VersionedRecord option" where
  "current g eid = find (\<lambda>v. identity v = eid \<and> is_open v) (versions g)"

text \<open>
  Modelled from the spec: \<open>open(record, decisionInterval)\<close> creates a version whose
  transaction time starts now and is unbounded above, with the decision interval given.
\<close>

definition open_version ::
    "GraphStore \<Rightarrow> Entity \<Rightarrow> LinkData option \<Rightarrow> TimeInterval \<Rightarrow> VersionedRecord" where
  "open_version g e l decisionInterval =
     \<lparr>payload = e, link = l,
      transaction = \<lparr>interval_start = Inclusive (clock g), interval_end = Unbounded\<rparr>,
      decision = decisionInterval\<rparr>"

text \<open>
  Modelled from the spec: \<open>close(identity, at)\<close> finds the currently open version of
  the identity and sets its upper bound to \<open>at\<close>; the result is \<open>None\<close> when there is
  no open version, which the callers report as \<open>NotFound\<close>.
\<close>

definition closed_at :: "nat \<Rightarrow> VersionedRecord \<Rightarrow> VersionedRecord" where
  "closed_at at v = v\<lparr>transaction := (transaction v)\<lparr>interval_end := Exclusive at\<rparr>\<rparr>"

fun close_version :: "EntityId \<Rightarrow> nat \<Rightarrow> VersionedRecord list \<Rightarrow> VersionedRecord list option" where
  "close_version eid at [] = None"
| "close_version eid at (v # vs) =
     (if identity v = eid \<and> is_open v
      then Some (closed_at at v # vs)
      else map_option (\<lambda>vs'. v # vs') (close_version eid at vs))"

text \<open>
  Modelled from the spec: the operations of the Graph Store. Each validates first and
  leaves the store as it was when it fails; an entity that has no open version is
  archived or absent. The decision time defaults to now.
\<close>

definition commit :: "GraphStore \<Rightarrow> VersionedRecord list \<Rightarrow> GraphStore" where
  "commit g vs = g\<lparr>versions := vs, clock := Suc (clock g)\<rparr>"

definition default_decision :: "GraphStore \<Rightarrow> TimeInterval option \<Rightarrow> TimeInterval" where
  "default_decision g d =
     (case d of
        None \<Rightarrow> \<lparr>interval_start = Inclusive (clock g), interval_end = Unbounded\<rparr>
      | Some i \<Rightarrow> i)"

type_synonym validator = "VersionedUrl \<Rightarrow> (string \<times> string) list \<Rightarrow> bool"

text \<open>
  Modelled from the spec: \<open>createEntity\<close> validates the properties against the entity
  type, then opens a new version under a fresh entity id of the owner.
\<close>

definition createEntity ::
    "validator \<Rightarrow> GraphStore \<Rightarrow> (string \<times> string) list \<Rightarrow> VersionedUrl \<Rightarrow> OwnedById \<Rightarrow> AccountId
      \<Rightarrow> TimeInterval option \<Rightarrow> Entity graph_result" where
  "createEntity validate g props type_id owner actor decisionInterval =
     (if \<not> validate type_id props then (Inl ValidationError, g)
      else
        let e = \<lparr>metadata = \<lparr>recordId = \<lparr>entity_id = (owner, next_uuid g), edition = clock g\<rparr>,
                               entityTypeId = type_id\<rparr>,
                 properties = props\<rparr>;
            v = open_version g e None (default_decision g decisionInterval)
        in (Inr e, (commit g (versions g @ [v]))\<lparr>next_uuid := Suc (next_uuid g)\<rparr>))"

text \<open>
  Modelled from the spec: \<open>updateEntity\<close> closes the current version and opens a new
  one with the new properties, in one transaction.
\<close>

definition updateEntity ::
    "validator \<Rightarrow> GraphStore \<Rightarrow> EntityId \<Rightarrow> (string \<times> string) list \<Rightarrow> AccountId
      \<Rightarrow> Entity graph_result" where
  "updateEntity validate g eid newProperties actor =
     (case current g eid of
        None \<Rightarrow> (Inl (NotFound eid), g)
      | Some old \<Rightarrow>
          if \<not> validate (entityTypeId (metadata (payload old))) newProperties
          then (Inl ValidationError, g)
          else
            (case close_version eid (clock g) (versions g) of
               None \<Rightarrow> (Inl (NotFound eid), g)
             | Some closed \<Rightarrow>
                 let e = \<lparr>metadata = (metadata (payload old))
                            \<lparr>recordId := \<lparr>entity_id = eid, edition = clock g\<rparr>\<rparr>,
                          properties = newProperties\<rparr>;
                     v = open_version g e (link old) (default_decision g None)
                 in (Inr e, commit g (closed @ [v]))))"

text \<open>
  Modelled from the spec: \<open>archiveEntity\<close> closes the current version without altering
  the properties.
\<close>

definition archiveEntity :: "GraphStore \<Rightarrow> EntityId \<Rightarrow> AccountId \<Rightarrow> unit graph_result" where
  "archiveEntity g eid actor =
     (case close_version eid (clock g) (versions g) of
        None \<Rightarrow> (Inl (NotFound eid), g)
      | Some closed \<Rightarrow> (Inr (), commit g closed))"


text \<open>
  Modelled from the spec: \<open>createLinkEntity\<close> is missing from the sources. It does as
  \<open>createEntity\<close>, and additionally neither endpoint may be
  archived (each has an open version) and the link type's destination constraints must
  admit the endpoints' current entity types.
\<close>

definition createLinkEntity ::
    "validator \<Rightarrow> GraphStore \<Rightarrow> OwnedById \<Rightarrow> EntityTypeWithMetadata \<Rightarrow> EntityId \<Rightarrow> EntityId
      \<Rightarrow> (string \<times> string) list \<Rightarrow> AccountId \<Rightarrow> LinkEntity graph_result" where
  "createLinkEntity validate g owner linkType left_id right_id props actor =
     (if \<not> validate (schema_id linkType) props then (Inl ValidationError, g)
      else
        case current g left_id of
          None \<Rightarrow> (Inl (NotFound left_id), g)
        | Some l \<Rightarrow>
            (case current g right_id of
               None \<Rightarrow> (Inl (NotFound right_id), g)
             | Some r \<Rightarrow>
                 if entityTypeId (metadata (payload l)) \<notin> set (allowedLeftTypes linkType)
                 then (Inl (LinkEndTypeMismatch left_id (allowedLeftTypes linkType)
                              (entityTypeId (metadata (payload l)))), g)
                 else if entityTypeId (metadata (payload r)) \<notin> set (allowedRightTypes linkType)
                 then (Inl (LinkEndTypeMismatch right_id (allowedRightTypes linkType)
                              (entityTypeId (metadata (payload r)))), g)
                 else
                   let m = \<lparr>recordId = \<lparr>entity_id = (owner, next_uuid g), edition = clock g\<rparr>,
                            entityTypeId = schema_id linkType\<rparr>;
                       d = \<lparr>leftEntityId = left_id, rightEntityId = right_id\<rparr>;
                       v = open_version g \<lparr>metadata = m, properties = props\<rparr> (Some d)
                             (default_decision g None)
                   in (Inr \<lparr>metadata = m, properties = props, linkData = d\<rparr>,
                       (commit g (versions g @ [v]))\<lparr>next_uuid := Suc (next_uuid g)\<rparr>)))"

text \<open>
  Modelled from the spec: \<^verbatim>\<open>getLinkEntityLeftEntity\<close> and \<^verbatim>\<open>getLinkEntityRightEntity\<close>
  of \<^verbatim>\<open>../primitive/link-entity\<close> are missing. A link entity designates a left and a
  right entity by their ids; the getters read the current version of the designated
  entity and fail with \<open>NotFound\<close> when there is none.
\<close>

definition getLatestEntityById :: "GraphStore \<Rightarrow> EntityId \<Rightarrow> Entity graph_result" where
  "getLatestEntityById g eid =
     (case current g eid of
        None \<Rightarrow> (Inl (NotFound eid), g)
      | Some v \<Rightarrow> (Inr (payload v), g))"

definition getLinkEntityLeftEntity :: "GraphStore \<Rightarrow> LinkEntity \<Rightarrow> Entity graph_result" where
  "getLinkEntityLeftEntity g l = getLatestEntityById g (leftEntityId (linkData l))"

definition getLinkEntityRightEntity :: "GraphStore \<Rightarrow> LinkEntity \<Rightarrow> Entity graph_result" where
  "getLinkEntityRightEntity g l = getLatestEntityById g (rightEntityId (linkData l))"

text \<open>
  Modelled from the spec: \<^verbatim>\<open>getUserFromEntity\<close> of \<^verbatim>\<open>./user\<close> and \<^verbatim>\<open>getOrgFromEntity\<close>
  of \<^verbatim>\<open>./org\<close> are missing. Like \<open>getOrgMembershipFromLinkEntity\<close> each checks the
  entity's type, fails with an \<open>EntityTypeMismatchError\<close> naming the expected and the
  actual type, and otherwise wraps the entity.
\<close>

record User =
  user_entity :: Entity

record Org =
  org_entity :: Entity

definition getUserFromEntity :: "SystemTypes \<Rightarrow> Entity \<Rightarrow> graph_error + User" where
  "getUserFromEntity SYSTEM_TYPES e =
     (if entityTypeId (metadata e) \<noteq> schema_id (entityType_user SYSTEM_TYPES)
      then Inl (EntityTypeMismatchError (entity_id (recordId (metadata e)))
                  (schema_id (entityType_user SYSTEM_TYPES)) (entityTypeId (metadata e)))
      else Inr \<lparr>user_entity = e\<rparr>)"

definition getOrgFromEntity :: "SystemTypes \<Rightarrow> Entity \<Rightarrow> graph_error + Org" where
  "getOrgFromEntity SYSTEM_TYPES e =
     (if entityTypeId (metadata e) \<noteq> schema_id (entityType_org SYSTEM_TYPES)
      then Inl (EntityTypeMismatchError (entity_id (recordId (metadata e)))
                  (schema_id (entityType_org SYSTEM_TYPES)) (entityTypeId (metadata e)))
      else Inr \<lparr>org_entity = e\<rparr>)"

text \<open>
  Modelled from the spec: \<^verbatim>\<open>extractEntityUuidFromEntityId\<close> of the subgraph library is
  missing; an entity id is a UUID scoped to an owner, and this is the UUID.
\<close>

definition extractEntityUuidFromEntityId :: "EntityId \<Rightarrow> EntityUuid" where
  "extractEntityUuidFromEntityId eid = snd eid"

text \<open>
  The three functions of \<^verbatim>\<open>org-membership.ts\<close> that go through the graph context. The
  context is the store and the validator; an \<^verbatim>\<open>await\<close> that rejects ends the function
  with that error.
\<close>

definition createOrgMembership ::
    "SystemTypes \<Rightarrow> validator \<Rightarrow> GraphStore \<Rightarrow> EntityId \<Rightarrow> EntityId \<Rightarrow> AccountId
      \<Rightarrow> OrgMembership graph_result" where
  "createOrgMembership SYSTEM_TYPES validate ctx userEntityId orgEntityId actorId =
     (case createLinkEntity validate ctx (extractEntityUuidFromEntityId orgEntityId)
             (linkEntityType_orgMembership SYSTEM_TYPES) userEntityId orgEntityId [] actorId of
        (Inl err, ctx') \<Rightarrow> (Inl err, ctx')
      | (Inr created, ctx') \<Rightarrow> (getOrgMembershipFromLinkEntity SYSTEM_TYPES created, ctx'))"

definition getOrgMembershipOrg ::
    "SystemTypes \<Rightarrow> GraphStore \<Rightarrow> OrgMembership \<Rightarrow> Org graph_result" where
  "getOrgMembershipOrg SYSTEM_TYPES ctx orgMembership =
     (case getLinkEntityRightEntity ctx (linkEntity orgMembership) of
        (Inl err, ctx') \<Rightarrow> (Inl err, ctx')
      | (Inr orgEntity, ctx') \<Rightarrow> (getOrgFromEntity SYSTEM_TYPES orgEntity, ctx'))"

definition getOrgMembershipUser ::
    "SystemTypes \<Rightarrow> GraphStore \<Rightarrow> OrgMembership \<Rightarrow> User graph_result" where
  "getOrgMembershipUser SYSTEM_TYPES ctx orgMembership =
     (case getLinkEntityLeftEntity ctx (linkEntity orgMembership) of
        (Inl err, ctx') \<Rightarrow> (Inl err, ctx')
      | (Inr userEntity, ctx') \<Rightarrow> (getUserFromEntity SYSTEM_TYPES userEntity, ctx'))"

text \<open>
  The four mutations as data, and a history of them applied to a store in order, each
  leaving the store it produced (or the store as it was, when it failed).
\<close>

datatype mutation =
    CreateEntity "(string \<times> string) list" VersionedUrl OwnedById AccountId "TimeInterval option"
  | UpdateEntity EntityId "(string \<times> string) list" AccountId
  | ArchiveEntity EntityId AccountId
  | CreateLinkEntity OwnedById EntityTypeWithMetadata EntityId EntityId "(string \<times> string) list"
      AccountId

fun apply_mutation :: "validator \<Rightarrow> mutation \<Rightarrow> GraphStore \<Rightarrow> GraphStore" where
  "apply_mutation validate (CreateEntity props type_id owner actor d) g =
     snd (createEntity validate g props type_id owner actor d)"
| "apply_mutation validate (UpdateEntity eid props actor) g =
     snd (updateEntity validate g eid props actor)"
| "apply_mutation validate (ArchiveEntity eid actor) g =
     snd (archiveEntity g eid actor)"
| "apply_mutation validate (CreateLinkEntity owner linkType left_id right_id props actor) g =
     snd (createLinkEntity validate g owner linkType left_id right_id props actor)"

definition run_history :: "validator \<Rightarrow> mutation list \<Rightarrow> GraphStore \<Rightarrow> GraphStore" where
  "run_history validate ms g = fold (apply_mutation validate) ms g"

text \<open>
  The temporal invariant in the words of the spec, per identity: the transaction-time
  intervals of its versions are pairwise non-overlapping, and at most one of them is
  unbounded above.
\<close>

fun pairwise_disjoint :: "TimeInterval list \<Rightarrow> bool" where
  "pairwise_disjoint [] = True"
| "pairwise_disjoint (i # is) = (list_all (\<lambda>j. \<not> overlaps i j) is \<and> pairwise_disjoint is)"

definition temporal_ok :: "VersionedRecord list \<Rightarrow> EntityId \<Rightarrow> bool" where
  "temporal_ok vs eid =
     (let mine = filter (\<lambda>v. identity v = eid) vs
      in pairwise_disjoint (map transaction mine) \<and> length (filter is_open mine) \<le> 1)"

text \<open>
  What the store maintains besides: every version's transaction interval is \<open>[a, b)\<close> or
  \<open>[a, \<infinity>)\<close> with its bounds in the past of the clock, and every stored UUID was drawn
  from the counter.
\<close>

definition well_formed_version :: "nat \<Rightarrow> nat \<Rightarrow> VersionedRecord \<Rightarrow> bool" where
  "well_formed_version c n v =
     (snd (identity v) < n \<and>
      (case interval_start (transaction v) of
         Inclusive a \<Rightarrow>
           a < c \<and>
           (case interval_end (transaction v) of
              Exclusive b \<Rightarrow> a < b \<and> b < c
            | Unbounded \<Rightarrow> True
            | Inclusive b \<Rightarrow> False)
       | Exclusive a \<Rightarrow> False
       | Unbounded \<Rightarrow> False))"

definition store_invariant :: "GraphStore \<Rightarrow> bool" where
  "store_invariant g =
     (list_all (well_formed_version (clock g) (next_uuid g)) (versions g) \<and>
      list_all (\<lambda>v. temporal_ok (versions g) (identity v)) (versions g))"

definition empty_store :: GraphStore where
  "empty_store = \<lparr>versions = [], clock = 0, next_uuid = 0\<rparr>"

subsection \<open>Concrete stores\<close>

definition accept_all :: validator where
  "accept_all type_id props = True"

definition store_with_user :: GraphStore where
  "store_with_user =
     snd (createEntity accept_all empty_store [(''shortname'', ''alice'')]
            ''https://hash.ai/@hash/types/entity-type/user/v/1'' 1 1 None)"

definition store_with_user_and_org :: GraphStore where
  "store_with_user_and_org =
     snd (createEntity accept_all store_with_user [(''shortname'', ''acme'')]
            ''https://hash.ai/@hash/types/entity-type/org/v/1'' 2 1 None)"

definition store_after_update :: GraphStore where
  "store_after_update =
     snd (updateEntity accept_all store_with_user (1, 0) [(''shortname'', ''al'')] 1)"

section \<open>The subgraph resolver\<close>

text \<open>
  Modelled from the spec: the Subgraph Resolver (4.6) and the part of the Query/Filter
  Engine (4.5) it calls are missing from the sources. The resolver reads a view of the
  store: the vertices, each with its versioned identity and its two time intervals, and
  the typed, directed edges between identities.
\<close>

datatype edge_kind =
    InheritsFrom
  | ConstrainsValuesOn
  | ConstrainsPropertiesOn
  | ConstrainsLinksOn
  | ConstrainsLinkDestinationsOn
  | HasLeftEntity
  | HasRightEntity

definition edge_kinds :: "edge_kind list" where
  "edge_kinds =
     [InheritsFrom, ConstrainsValuesOn, ConstrainsPropertiesOn, ConstrainsLinksOn,
      ConstrainsLinkDestinationsOn, HasLeftEntity, HasRightEntity]"

datatype vertex_id =
    OntologyVertexId string nat
  | EntityVertexId EntityId nat

record vertex =
  vertex_id :: vertex_id
  vertex_transaction :: TimeInterval
  vertex_decision :: TimeInterval

record edge =
  edge_source :: vertex_id
  edge_kind :: edge_kind
  edge_target :: vertex_id

record store_view =
  view_vertices :: "vertex list"
  view_edges :: "edge list"

record temporal_axes =
  transaction_instant :: nat
  decision_instant :: nat

type_synonym resolve_depths = "edge_kind \<Rightarrow> nat"

record subgraph =
  roots :: "vertex_id list"
  vertices :: "vertex_id list"
  edges :: "edge list"
  depths :: resolve_depths
  axes :: temporal_axes

text \<open>
  Modelled from the spec: a filter is a recursive boolean expression; a leaf compares an
  attribute of the candidate, \<open>All\<close> and \<open>Any\<close> go through their sub-filters from left
  to right, \<open>Not\<close> negates one sub-filter.
\<close>

datatype filter_expr =
    Leaf "vertex \<Rightarrow> bool"
  | All "filter_expr list"
  | Any "filter_expr list"
  | Not filter_expr

fun evaluate :: "filter_expr \<Rightarrow> vertex \<Rightarrow> bool" where
  "evaluate (Leaf p) v = p v"
| "evaluate (All fs) v = list_all (\<lambda>f. evaluate f v) fs"
| "evaluate (Any fs) v = list_ex (\<lambda>f. evaluate f v) fs"
| "evaluate (Not f) v = (\<not> evaluate f v)"

text \<open>
  Modelled from the spec: a vertex is pinned at the temporal axes when both of its
  intervals contain the given instants.
\<close>

definition pinned :: "temporal_axes \<Rightarrow> vertex \<Rightarrow> bool" where
  "pinned ax v =
     (contains (vertex_transaction v) (transaction_instant ax) \<and>
      contains (vertex_decision v) (decision_instant ax))"

definition pinned_id :: "store_view \<Rightarrow> temporal_axes \<Rightarrow> vertex_id \<Rightarrow> bool" where
  "pinned_id view ax i = list_ex (\<lambda>v. vertex_id v = i \<and> pinned ax v) (view_vertices view)"

definition total_depth :: "resolve_depths \<Rightarrow> nat" where
  "total_depth d = sum_list (map d edge_kinds)"

text \<open>
  Modelled from the spec: step (2) and (3) of the algorithm. From the current frontier
  the edges of every kind with a positive depth are followed; the targets that are pinned
  at the same axes form the next frontier, which is resolved with the depth of that kind
  decremented and the other depths unchanged. A branch ends when its frontier is empty or
  its depth is zero. The result is the identities visited and the edges followed.
\<close>

function traverse ::
    "store_view \<Rightarrow> temporal_axes \<Rightarrow> resolve_depths \<Rightarrow> vertex_id list \<Rightarrow> vertex_id list \<times> edge list" where
  "traverse view ax d frontier =
     (if frontier = [] then ([], [])
      else
        let branches =
              map (\<lambda>k.
                     if d k = 0 then ([], [])
                     else
                       let followed =
                             filter (\<lambda>e. edge_kind e = k \<and> edge_source e \<in> set frontier)
                               (view_edges view);
                           discovered = filter (pinned_id view ax) (map edge_target followed);
                           deeper = traverse view ax (d(k := d k - 1)) discovered
                       in (fst deeper, followed @ snd deeper))
                  edge_kinds
        in (frontier @ concat (map fst branches), concat (map snd branches)))"
  by pat_completeness auto


termination traverse
  apply (relation "measure (\<lambda>(view, ax, d, frontier). total_depth d)")
   apply simp
  subgoal for view ax d frontier k
    by (cases k) (simp_all add: total_depth_def edge_kinds_def)
  done

declare traverse.simps [simp del]

text \<open>
  Modelled from the spec: \<open>resolve\<close>. (1) The roots are the pinned vertices that satisfy
  the root filter; (2, 3) the traversal; (4) the vertices are deduplicated by identity;
  (5) the edge set is the set of followed edges restricted to those whose both endpoints
  are in the vertex set.
\<close>

definition resolve :: "store_view \<Rightarrow> filter_expr \<Rightarrow> resolve_depths \<Rightarrow> temporal_axes \<Rightarrow> subgraph" where
  "resolve view rootFilter resolveDepths temporalAxes =
     (let rs = map vertex_id
                 (filter (\<lambda>v. pinned temporalAxes v \<and> evaluate rootFilter v) (view_vertices view));
          found = traverse view temporalAxes resolveDepths rs;
          vs = remdups (fst found);
          es = filter (\<lambda>e. edge_source e \<in> set vs \<and> edge_target e \<in> set vs) (remdups (snd found))
      in \<lparr>roots = remdups rs, vertices = vs, edges = es, depths = resolveDepths, axes = temporalAxes\<rparr>)"

text \<open>A small ontology: three entity types in an inheritance chain, one link constraint.\<close>

definition always :: TimeInterval where
  "always = \<lparr>interval_start = Inclusive 0, interval_end = Unbounded\<rparr>"

definition type_vertex :: "string \<Rightarrow> TimeInterval \<Rightarrow> vertex" where
  "type_vertex b tx = \<lparr>vertex_id = OntologyVertexId b 1, vertex_transaction = tx, vertex_decision = always\<rparr>"

definition type_edge :: "string \<Rightarrow> edge_kind \<Rightarrow> string \<Rightarrow> edge" where
  "type_edge a k b = \<lparr>edge_source = OntologyVertexId a 1, edge_kind = k, edge_target = OntologyVertexId b 1\<rparr>"

definition ontology_view :: store_view where
  "ontology_view =
     \<lparr>view_vertices =
        [type_vertex ''employee'' always, type_vertex ''person'' always, type_vertex ''agent'' always,
         type_vertex ''thing'' always, type_vertex ''employer'' always,
         type_vertex ''retired'' \<lparr>interval_start = Inclusive 0, interval_end = Exclusive 3\<rparr>],
      view_edges =
        [type_edge ''employee'' InheritsFrom ''person'', type_edge ''person'' InheritsFrom ''agent'',
         type_edge ''agent'' InheritsFrom ''thing'', type_edge ''employee'' ConstrainsLinksOn ''employer'',
         type_edge ''employee'' InheritsFrom ''retired'']\<rparr>"

definition is_employee :: filter_expr where
  "is_employee = All [Leaf (\<lambda>v. vertex_id v = OntologyVertexId ''employee'' 1), Not (Any [])]"

definition two_up :: resolve_depths where
  "two_up = (\<lambda>k. 0)(InheritsFrom := 2)"

definition at_five :: temporal_axes where
  "at_five = \<lparr>transaction_instant = 5, decision_instant = 5\<rparr>"


section \<open>Properties of the contents resolver\<close>

lemma forEach_check_None:
  "forEach_check cs i es = None \<longleftrightarrow> (\<forall>e \<in> set es. e \<noteq> None)"
  by (induction es arbitrary: i) (auto split: option.splits)

lemma forEach_check_Some:
  "forEach_check cs i es = Some err \<Longrightarrow>
     \<exists>k < length es. es ! k = None \<and> (\<forall>j < k. es ! j \<noteq> None) \<and> err = not_found_error (cs ! (i + k))"
proof (induction es arbitrary: i)
  case Nil
  then show ?case by simp
next
  case (Cons e es)
  show ?case
  proof (cases e)
    case None
    with Cons.prems have "err = not_found_error (cs ! i)" by simp
    with None show ?thesis by (intro exI [of _ 0]) simp
  next
    case (Some b)
    with Cons.prems have "forEach_check cs (Suc i) es = Some err" by simp
    from Cons.IH [OF this] obtain k where k: "k < length es" "es ! k = None"
      "\<forall>j < k. es ! j \<noteq> None" "err = not_found_error (cs ! (Suc i + k))" by blast
    have "\<forall>j < Suc k. (e # es) ! j \<noteq> None"
      using k(3) Some by (auto simp: nth_Cons split: nat.splits)
    with k show ?thesis by (intro exI [of _ "Suc k"]) simp
  qed
qed

text \<open>
  C5. If some reference of the contents list is absent from the store, the resolver fails
  with an \<^verbatim>\<open>ApolloError\<close> of code \<^verbatim>\<open>NOT_FOUND\<close> whose message spells out the entity
  id and the namespace id of a missing reference (the first one in list order); if every
  reference is present, it returns the fetched blocks and does not fail.
\<close>

theorem contents_not_found_names_identity:
  "((\<exists>c \<in> set cs. fetch getEntity c = None) \<longrightarrow>
      (\<exists>k < length cs.
          fetch getEntity (cs ! k) = None \<and>
          (\<forall>j < k. fetch getEntity (cs ! j) \<noteq> None) \<and>
          contents getEntity cs =
            Inl (ApolloError
                  (''entity '' @ entityId (cs ! k) @ '' not found in namespace '' @ namespaceId (cs ! k))
                  ''NOT_FOUND''))) \<and>
   ((\<forall>c \<in> set cs. fetch getEntity c \<noteq> None) \<longrightarrow>
      contents getEntity cs = Inr (map (\<lambda>c. the (fetch getEntity c)) cs))"
proof (intro conjI impI)
  assume missing: "\<exists>c \<in> set cs. fetch getEntity c = None"
  let ?es = "map (fetch getEntity) cs"
  from missing have "forEach_check cs 0 ?es \<noteq> None"
    by (auto simp: forEach_check_None)
  then obtain err where err: "forEach_check cs 0 ?es = Some err" by blast
  from forEach_check_Some [OF err] obtain k where k: "k < length cs" "?es ! k = None"
    "\<forall>j < k. ?es ! j \<noteq> None" "err = not_found_error (cs ! k)" by auto
  have "contents getEntity cs = Inl (not_found_error (cs ! k))"
    using err k(4) by (simp add: contents_def)
  moreover have "fetch getEntity (cs ! k) = None" using k(1,2) by simp
  moreover have "\<forall>j < k. fetch getEntity (cs ! j) \<noteq> None" using k(1,3) by simp
  ultimately show "\<exists>k < length cs.
          fetch getEntity (cs ! k) = None \<and>
          (\<forall>j < k. fetch getEntity (cs ! j) \<noteq> None) \<and>
          contents getEntity cs =
            Inl (ApolloError
                  (''entity '' @ entityId (cs ! k) @ '' not found in namespace '' @ namespaceId (cs ! k))
                  ''NOT_FOUND'')"
    using k(1) unfolding not_found_error_def by blast
next
  assume "\<forall>c \<in> set cs. fetch getEntity c \<noteq> None"
  then have "forEach_check cs 0 (map (fetch getEntity) cs) = None"
    by (auto simp: forEach_check_None)
  then show "contents getEntity cs = Inr (map (\<lambda>c. the (fetch getEntity c)) cs)"
    by (simp add: contents_def comp_def)
qed

theorem contents_not_found_names_identity_witness:
  "(\<exists>c \<in> set page_missing. fetch store1 c = None) \<and>
   contents store1 page_missing = Inl (ApolloError ''entity e2 not found in namespace n'' ''NOT_FOUND'') \<and>
   list_all (\<lambda>c. fetch store1 c \<noteq> None) page_present \<and>
   contents store1 page_present = Inr [7, 7]"
proof -
  have m: "\<exists>c \<in> set page_missing. fetch store1 c = None"
    by (simp add: page_missing_def fetch_def store1_def)
  have p: "\<forall>c \<in> set page_present. fetch store1 c \<noteq> None"
    by (simp add: page_present_def fetch_def store1_def)
  from m contents_not_found_names_identity [of page_missing store1]
  obtain k where k: "k < length page_missing" "fetch store1 (page_missing ! k) = None"
    "contents store1 page_missing =
       Inl (ApolloError (''entity '' @ entityId (page_missing ! k) @ '' not found in namespace ''
              @ namespaceId (page_missing ! k)) ''NOT_FOUND'')"
    by blast
  from k(1) have "k = 0 \<or> k = 1" by (auto simp: page_missing_def)
  with k(2) have "k = 1" by (auto simp: page_missing_def fetch_def store1_def)
  with k(3) have e: "contents store1 page_missing =
      Inl (ApolloError ''entity e2 not found in namespace n'' ''NOT_FOUND'')"
    by (simp add: page_missing_def)
  from p contents_not_found_names_identity [of page_present store1]
  have "contents store1 page_present = Inr (map (\<lambda>c. the (fetch store1 c)) page_present)"
    by blast
  then have "contents store1 page_present = Inr [7, 7]"
    by (simp add: page_present_def fetch_def store1_def)
  with m p e show ?thesis by (simp add: list_all_iff)
qed

text \<open>
  C10. When every reference of the contents list is present in the store, the resolver
  returns one block per reference, and the block at position \<open>i\<close> is the entity fetched
  for the reference at position \<open>i\<close>.
\<close>

theorem contents_preserves_order:
  assumes "\<forall>c \<in> set cs. fetch getEntity c \<noteq> None"
  shows "\<exists>bs. contents getEntity cs = Inr bs \<and> length bs = length cs \<and>
              (\<forall>i < length cs. fetch getEntity (cs ! i) = Some (bs ! i))"
proof -
  from assms have "forEach_check cs 0 (map (fetch getEntity) cs) = None"
    by (auto simp: forEach_check_None)
  then have "contents getEntity cs = Inr (map the (map (fetch getEntity) cs))"
    by (simp add: contents_def)
  moreover have "\<forall>i < length cs. fetch getEntity (cs ! i) = Some (map the (map (fetch getEntity) cs) ! i)"
  proof (intro allI impI)
    fix i assume i: "i < length cs"
    then have "cs ! i \<in> set cs" by simp
    with assms obtain b where "fetch getEntity (cs ! i) = Some b" by blast
    with i show "fetch getEntity (cs ! i) = Some (map the (map (fetch getEntity) cs) ! i)" by simp
  qed
  ultimately show ?thesis by simp
qed

theorem contents_preserves_order_witness:
  "list_all (\<lambda>c. fetch store2 c \<noteq> None) page_two \<and>
   (\<exists>bs. contents store2 page_two = Inr bs \<and> length bs = 2 \<and>
         bs ! 0 = ''block-b'' \<and> bs ! 1 = ''block-a'')"
proof -
  have p: "\<forall>c \<in> set page_two. fetch store2 c \<noteq> None"
    by (simp add: page_two_def fetch_def store2_def)
  from contents_preserves_order [OF p] obtain bs where bs: "contents store2 page_two = Inr bs"
    "length bs = length page_two" "\<forall>i < length page_two. fetch store2 (page_two ! i) = Some (bs ! i)"
    by blast
  have "0 < length page_two" "1 < length page_two" by (simp_all add: page_two_def)
  with bs(3) have "fetch store2 (page_two ! 0) = Some (bs ! 0)" "fetch store2 (page_two ! 1) = Some (bs ! 1)"
    by blast+
  then have "bs ! 0 = ''block-b''" "bs ! 1 = ''block-a''"
    by (simp_all add: page_two_def fetch_def store2_def)
  with p bs(1,2) show ?thesis by (simp add: page_two_def list_all_iff)
qed

section \<open>Properties of the versioned URL\<close>

lemma digit_value_digit_char: "d < 10 \<Longrightarrow> digit_value (digit_char d) = d"
  by (simp add: digit_value_def digit_char_def)

lemma decimal_value_snoc: "decimal_value (cs @ [c]) = 10 * decimal_value cs + digit_value c"
  by (simp add: decimal_value_def)

lemma decimal_value_decimal: "decimal_value (decimal n) = n"
proof (induction n rule: decimal.induct)
  case (1 n)
  show ?case
  proof (cases "n < 10")
    case True
    then have "decimal n = [digit_char n]" by (subst decimal.simps) simp
    with True show ?thesis by (simp add: decimal_value_def digit_value_digit_char)
  next
    case False
    then have d: "decimal n = decimal (n div 10) @ [digit_char (n mod 10)]"
      by (subst decimal.simps) simp
    from 1 False have "decimal_value (decimal (n div 10)) = n div 10" by simp
    then show ?thesis
      unfolding d decimal_value_snoc by (simp add: digit_value_digit_char)
  qed
qed

lemma decimal_inj: "decimal m = decimal n \<Longrightarrow> m = n"
  by (metis decimal_value_decimal)

lemma decimal_nonempty: "decimal n \<noteq> []"
proof (cases "n < 10")
  case True
  then show ?thesis by (subst decimal.simps) simp
next
  case False
  then show ?thesis by (subst decimal.simps) simp
qed

lemma decimal_times_ten: "0 < m \<Longrightarrow> decimal (m * 10) = decimal m @ [digit_char 0]"
  by (subst decimal.simps) simp

lemma decimal_shift:
  "0 < s \<Longrightarrow> decimal (s * 10 ^ z) = decimal s @ replicate z (digit_char 0)"
proof (induction z)
  case 0
  then show ?case by simp
next
  case (Suc z)
  then have "0 < s * 10 ^ z" by simp
  from decimal_times_ten [OF this]
  have "decimal (s * 10 ^ z * 10) = decimal (s * 10 ^ z) @ [digit_char 0]" .
  moreover have "s * 10 ^ Suc z = s * 10 ^ z * 10" by simp
  ultimately have "decimal (s * 10 ^ Suc z) = decimal (s * 10 ^ z) @ [digit_char 0]"
    by (simp only:)
  also have "\<dots> = decimal s @ replicate z (digit_char 0) @ [digit_char 0]"
    using Suc by simp
  also have "\<dots> = decimal s @ replicate (Suc z) (digit_char 0)"
    by (simp add: replicate_append_same)
  finally show ?case .
qed

lemma digit_char_zero: "digit_char 0 = CHR ''0''"
  by code_simp

lemma length_decimal_le: "0 < k \<Longrightarrow> x < 10 ^ k \<Longrightarrow> length (decimal x) \<le> k"
proof (induction x arbitrary: k rule: decimal.induct)
  case (1 n)
  show ?case
  proof (cases "n < 10")
    case True
    then have "decimal n = [digit_char n]" by (subst decimal.simps) simp
    with "1.prems" show ?thesis by simp
  next
    case False
    then have d: "decimal n = decimal (n div 10) @ [digit_char (n mod 10)]"
      by (subst decimal.simps) simp
    from False "1.prems" have k: "1 < k" by (cases "k = 1") auto
    then obtain j where j: "k = Suc j" "0 < j" by (cases k) auto
    from "1.prems"(2) j have "n div 10 < 10 ^ j" by (simp add: less_mult_imp_div_less)
    from "1.IH" [OF False j(2) this] show ?thesis unfolding d using j by simp
  qed
qed

lemma bit_length_bounds:
  "0 < n \<Longrightarrow> 2 ^ (bit_length n - 1) \<le> n \<and> n < 2 ^ bit_length n"
proof (induction n rule: bit_length.induct)
  case (1 n)
  from "1.prems" have b: "bit_length n = Suc (bit_length (n div 2))"
    by (subst bit_length.simps) simp
  show ?case
  proof (cases "n div 2 = 0")
    case True
    with "1.prems" have "n = 1" by (auto simp: div_eq_0_iff)
    moreover have "bit_length (0::nat) = 0" by (subst bit_length.simps) simp
    ultimately show ?thesis using b by simp
  next
    case False
    then have pos: "0 < n div 2" by simp
    from "1.prems" have "n \<noteq> 0" by simp
    from "1.IH" [OF this pos] have lo: "2 ^ (bit_length (n div 2) - 1) \<le> n div 2"
      and hi: "n div 2 < 2 ^ bit_length (n div 2)" by simp_all
    have bpos: "0 < bit_length (n div 2)"
      using pos by (subst bit_length.simps) simp
    then obtain c where c: "bit_length (n div 2) = Suc c" by (cases "bit_length (n div 2)") auto
    from lo c have "2 * 2 ^ c \<le> 2 * (n div 2)" by simp
    also have "\<dots> \<le> n" by simp
    finally have l: "2 ^ Suc c \<le> n" by simp
    from hi c have "Suc (n div 2) \<le> 2 ^ Suc c" by simp
    then have "2 * Suc (n div 2) \<le> 2 * 2 ^ Suc c" by simp
    moreover have "n < 2 * Suc (n div 2)" by simp
    ultimately have h: "n < 2 ^ Suc (Suc c)" by simp
    from l h show ?thesis unfolding b c by simp
  qed
qed

lemma to_double_large:
  assumes "2 ^ 53 \<le> c"
  shows "2 ^ 53 \<le> to_double c"
proof -
  from assms have pos: "0 < c" by (simp add: less_le_trans [of 0 "2 ^ 53"])
  from bit_length_bounds [OF pos] have lo: "2 ^ (bit_length c - 1) \<le> c" and hi: "c < 2 ^ bit_length c"
    by simp_all
  from assms hi have "(2::nat) ^ 53 < 2 ^ bit_length c" by (rule le_less_trans)
  then have "53 < bit_length c" by (rule power_less_imp_less_exp [rotated]) simp
  then obtain e where "bit_length c = Suc (53 + e)" by (auto dest: less_imp_Suc_add)
  then have e: "bit_length c = Suc e + 53" "bit_length c - 53 = Suc e" by simp_all
  from lo e have "2 ^ (e + 53) \<le> c" by (simp add: add.commute)
  then have "(2 ^ (e + 53)) div 2 ^ Suc e \<le> c div 2 ^ Suc e" by (rule div_le_mono)
  moreover have "(2::nat) ^ (e + 53) div 2 ^ Suc e = 2 ^ 52"
  proof -
    have "(2::nat) ^ (e + 53) = 2 ^ 52 * 2 ^ Suc e" by (simp add: power_add)
    then show ?thesis by simp
  qed
  ultimately have q: "2 ^ 52 \<le> c div 2 ^ Suc e" by simp
  let ?q = "c div 2 ^ Suc e"
  let ?q' = "if 2 ^ (Suc e - 1) < c mod 2 ^ Suc e \<or> (c mod 2 ^ Suc e = 2 ^ (Suc e - 1) \<and> odd ?q) then Suc ?q else ?q"
  have td: "to_double c = ?q' * 2 ^ Suc e"
    using assms e(2) by (simp add: to_double_def Let_def)
  have "2 ^ 52 \<le> ?q'" using q by auto
  then have "2 ^ 52 * 2 ^ Suc e \<le> ?q' * 2 ^ Suc e" by (rule mult_le_mono1)
  moreover have "(2::nat) ^ 53 \<le> 2 ^ 52 * 2 ^ Suc e"
  proof -
    have "(2::nat) ^ 53 = 2 ^ 52 * 2" by simp
    also have "\<dots> \<le> 2 ^ 52 * 2 ^ Suc e" by (intro mult_le_mono2) simp
    finally show ?thesis .
  qed
  ultimately show ?thesis unfolding td by (rule_tac order_trans)
qed

lemma to_double_small: "v < 2 ^ 53 \<Longrightarrow> to_double v = v"
  by (simp add: to_double_def)

lemma to_double_safe_eq:
  assumes "x < 2 ^ 53" and "to_double c = x"
  shows "c = x"
proof (cases "c < 2 ^ 53")
  case True
  with assms(2) show ?thesis by (simp add: to_double_small)
next
  case False
  then have "2 ^ 53 \<le> to_double c" by (intro to_double_large) simp
  with assms show ?thesis by simp
qed

lemma if_chain:
  "(if A then a else if B then b else c) = r \<Longrightarrow>
     (A \<and> a = r) \<or> (\<not> A \<and> B \<and> b = r) \<or> (\<not> A \<and> \<not> B \<and> c = r)"
  by (auto split: if_splits)

lemma shortest_safe:
  "x < 2 ^ 53 \<Longrightarrow> shortest x z = (s, z') \<Longrightarrow> s * 10 ^ z' = x"
proof (induction z)
  case 0
  then show ?case by simp
next
  case (Suc z)
  let ?p = "10 ^ Suc z :: nat"
  let ?lo = "x div ?p"
  let ?A = "(0 < ?lo \<and> to_double (?lo * ?p) = x) \<and>
     (\<not> to_double (Suc ?lo * ?p) = x \<or> x - ?lo * ?p < Suc ?lo * ?p - x \<or>
      (x - ?lo * ?p = Suc ?lo * ?p - x \<and> even ?lo))"
  let ?B = "to_double (Suc ?lo * ?p) = x"
  have unfolded: "shortest x (Suc z) =
      (if ?A then (?lo, Suc z) else if ?B then (Suc ?lo, Suc z) else shortest x z)"
    by (simp only: shortest.simps Let_def)
  from Suc.prems(2) have sel:
    "(if ?A then (?lo, Suc z) else if ?B then (Suc ?lo, Suc z) else shortest x z) = (s, z')"
    unfolding unfolded .
  from if_chain [OF sel] consider
      (first) "?A" "(?lo, Suc z) = (s, z')"
    | (second) "?B" "(Suc ?lo, Suc z) = (s, z')"
    | (rec) "shortest x z = (s, z')"
    by blast
  then consider
      (lo) "to_double (?lo * ?p) = x" "s = ?lo" "z' = Suc z"
    | (hi) "to_double (Suc ?lo * ?p) = x" "s = Suc ?lo" "z' = Suc z"
    | (rec) "shortest x z = (s, z')"
  proof cases
    case first
    from first(1) have "to_double (?lo * ?p) = x" by blast
    moreover from first(2) have "s = ?lo" "z' = Suc z" by blast+
    ultimately show ?thesis by (rule that(1))
  next
    case second
    from second(2) have "s = Suc ?lo" "z' = Suc z" by blast+
    with second(1) show ?thesis by (rule that(2))
  next
    case rec
    then show ?thesis by (rule that(3))
  qed
  then show ?case
  proof cases
    case lo
    from to_double_safe_eq [OF Suc.prems(1) lo(1)] lo(2,3) show ?thesis by simp
  next
    case hi
    from to_double_safe_eq [OF Suc.prems(1) hi(1)] hi(2,3) show ?thesis by simp
  next
    case rec
    from Suc.IH [OF Suc.prems(1) rec] show ?thesis .
  qed
qed

lemma shortest_rounds_back:
  "to_double x = x \<Longrightarrow> shortest x z = (s, z') \<Longrightarrow> to_double (s * 10 ^ z') = x"
proof (induction z)
  case 0
  then show ?case by simp
next
  case (Suc z)
  let ?p = "10 ^ Suc z :: nat"
  let ?lo = "x div ?p"
  let ?A = "(0 < ?lo \<and> to_double (?lo * ?p) = x) \<and>
     (\<not> to_double (Suc ?lo * ?p) = x \<or> x - ?lo * ?p < Suc ?lo * ?p - x \<or>
      (x - ?lo * ?p = Suc ?lo * ?p - x \<and> even ?lo))"
  let ?B = "to_double (Suc ?lo * ?p) = x"
  have unfolded: "shortest x (Suc z) =
      (if ?A then (?lo, Suc z) else if ?B then (Suc ?lo, Suc z) else shortest x z)"
    by (simp only: shortest.simps Let_def)
  from Suc.prems(2) have sel:
    "(if ?A then (?lo, Suc z) else if ?B then (Suc ?lo, Suc z) else shortest x z) = (s, z')"
    unfolding unfolded .
  from if_chain [OF sel] consider
      (first) "?A" "(?lo, Suc z) = (s, z')"
    | (second) "?B" "(Suc ?lo, Suc z) = (s, z')"
    | (rec) "shortest x z = (s, z')"
    by blast
  then consider
      (lo) "to_double (?lo * ?p) = x" "s = ?lo" "z' = Suc z"
    | (hi) "to_double (Suc ?lo * ?p) = x" "s = Suc ?lo" "z' = Suc z"
    | (rec) "shortest x z = (s, z')"
  proof cases
    case first
    from first(1) have "to_double (?lo * ?p) = x" by blast
    moreover from first(2) have "s = ?lo" "z' = Suc z" by blast+
    ultimately show ?thesis by (rule that(1))
  next
    case second
    from second(2) have "s = Suc ?lo" "z' = Suc z" by blast+
    with second(1) show ?thesis by (rule that(2))
  next
    case rec
    then show ?thesis by (rule that(3))
  qed
  then show ?case
  proof cases
    case lo
    then show ?thesis by simp
  next
    case hi
    then show ?thesis by simp
  next
    case rec
    from Suc.IH [OF Suc.prems(1) rec] show ?thesis .
  qed
qed

lemma Number_toString_safe:
  assumes safe: "x < 2 ^ 53"
  shows "Number_toString x = decimal x"
proof -
  obtain s z where sh: "shortest x (length (decimal x) - 1) = (s, z)"
    by (cases "shortest x (length (decimal x) - 1)") auto
  from shortest_safe [OF safe sh] have v: "s * 10 ^ z = x" .
  have "(2::nat) ^ 53 < 10 ^ 16" by simp
  with safe have "x < 10 ^ 16" by (rule less_trans)
  then have len: "length (decimal x) \<le> 16" by (intro length_decimal_le) simp_all
  have full: "decimal s @ replicate z CHR ''0'' = decimal x \<and> length (decimal s) + z = length (decimal x)"
  proof (cases "s = 0")
    case True
    with v have x0: "x = 0" by simp
    have "decimal 0 = [digit_char 0]" by (subst decimal.simps) simp
    with sh x0 have "z = 0" by simp
    with True x0 show ?thesis by simp
  next
    case False
    then have "0 < s" by simp
    from decimal_shift [OF this, of z] v have "decimal x = decimal s @ replicate z CHR ''0''"
      by (simp add: digit_char_zero)
    then show ?thesis by simp
  qed
  then have "length (decimal s) + z \<le> 21" using len by simp
  with full sh show ?thesis by (simp add: Number_toString_def Let_def)
qed

lemma is_digit_digit_char: "d < 10 \<Longrightarrow> is_digit (digit_char d)"
  by (simp add: is_digit_def digit_char_def)

lemma decimal_digits: "c \<in> set (decimal n) \<Longrightarrow> is_digit c"
proof (induction n rule: decimal.induct)
  case (1 n)
  show ?case
  proof (cases "n < 10")
    case True
    then have "decimal n = [digit_char n]" by (subst decimal.simps) simp
    with "1.prems" True show ?thesis by (simp add: is_digit_digit_char)
  next
    case False
    then have "decimal n = decimal (n div 10) @ [digit_char (n mod 10)]"
      by (subst decimal.simps) simp
    with "1.prems" have "c \<in> set (decimal (n div 10)) \<or> c = digit_char (n mod 10)" by auto
    then show ?thesis
    proof
      assume "c \<in> set (decimal (n div 10))"
      then show ?thesis by (rule "1.IH" [OF False])
    next
      assume "c = digit_char (n mod 10)"
      then show ?thesis by (simp add: is_digit_digit_char)
    qed
  qed
qed

lemma not_digit:
  "\<not> is_digit CHR ''/''" "\<not> is_digit CHR ''-''" "\<not> is_digit CHR ''.''"
  "\<not> is_digit CHR ''e''" "\<not> is_digit CHR ''+''"
  by (simp_all add: is_digit_def)

lemma is_digit_zero: "is_digit CHR ''0''"
  by (simp add: is_digit_def)

lemma digit_value_zero: "digit_value CHR ''0'' = 0"
  by (simp add: digit_value_def)

lemma decimal_value_zeros:
  "decimal_value (cs @ replicate z CHR ''0'') = decimal_value cs * 10 ^ z"
proof (induction z)
  case 0
  then show ?case by simp
next
  case (Suc z)
  have "cs @ replicate (Suc z) CHR ''0'' = (cs @ replicate z CHR ''0'') @ [CHR ''0'']"
    by (simp add: replicate_append_same)
  then have "decimal_value (cs @ replicate (Suc z) CHR ''0'') =
      10 * decimal_value (cs @ replicate z CHR ''0'') + digit_value CHR ''0''"
    by (simp only: decimal_value_snoc)
  with Suc show ?case by (simp add: digit_value_zero)
qed

lemma takeWhile_const:
  "takeWhile (\<lambda>c. c = a) xs = replicate (length (takeWhile (\<lambda>c. c = a) xs)) a"
  by (induction xs) auto

lemma strip_trailing_zeros_split:
  "ds = strip_trailing_zeros ds @ replicate (length ds - length (strip_trailing_zeros ds)) CHR ''0''"
proof -
  let ?t = "takeWhile (\<lambda>c. c = CHR ''0'') (rev ds)"
  let ?d = "dropWhile (\<lambda>c. c = CHR ''0'') (rev ds)"
  have "rev ds = ?t @ ?d" by simp
  then have "ds = rev ?d @ rev ?t" by (metis rev_append rev_rev_ident)
  moreover have "?t = replicate (length ?t) CHR ''0''" by (rule takeWhile_const)
  then have "rev ?t = replicate (length ?t) CHR ''0''" by (metis rev_replicate)
  moreover have "length ds = length ?d + length ?t"
    by (metis length_append length_rev takeWhile_dropWhile_id add.commute)
  ultimately show ?thesis by (simp add: strip_trailing_zeros_def)
qed

lemma strip_trailing_zeros_subset: "set (strip_trailing_zeros ds) \<subseteq> set ds"
  by (auto simp: strip_trailing_zeros_def dest: set_dropWhileD)

lemma Number_toString_form:
  obtains s z where "shortest x (length (decimal x) - 1) = (s, z)"
    and "Number_toString x =
      (if length (decimal s) + z \<le> 21 then decimal s @ replicate z CHR ''0''
       else exponent_form (strip_trailing_zeros (decimal s)) (length (decimal s) + z))"
proof -
  obtain s z where sh: "shortest x (length (decimal x) - 1) = (s, z)"
    by (cases "shortest x (length (decimal x) - 1)") auto
  then have "Number_toString x =
      (if length (decimal s) + z \<le> 21 then decimal s @ replicate z CHR ''0''
       else exponent_form (strip_trailing_zeros (decimal s)) (length (decimal s) + z))"
    by (simp add: Number_toString_def Let_def)
  with sh show ?thesis by (rule that)
qed

lemma denotation_digits:
  assumes "\<forall>c \<in> set str. is_digit c"
  shows "denotation str = decimal_value str"
proof -
  from assms not_digit(4) have "CHR ''e'' \<notin> set str" by blast
  then show ?thesis by (simp add: denotation_def)
qed

lemma exponent_form_parts:
  assumes m: "m = a # as"
  shows "exponent_form m n =
           (a # (if as = [] then [] else CHR ''.'' # as)) @ CHR ''e'' # CHR ''+'' # decimal (n - 1)"
  by (simp add: exponent_form_def m)

lemma denotation_exponent_form:
  assumes ne: "m \<noteq> []" and dig: "\<forall>c \<in> set m. is_digit c" and n: "0 < n"
  shows "denotation (exponent_form m n) = decimal_value m * 10 ^ (n - length m)"
proof -
  from ne obtain a as where m: "m = a # as" by (cases m) auto
  let ?mant = "a # (if as = [] then [] else CHR ''.'' # as)"
  let ?rest = "CHR ''+'' # decimal (n - 1)"
  have str: "exponent_form m n = ?mant @ CHR ''e'' # ?rest"
    by (rule exponent_form_parts [OF m])
  have mant_no_e: "\<forall>c \<in> set ?mant. c \<noteq> CHR ''e''"
  proof
    fix c assume "c \<in> set ?mant"
    then have "c \<in> set m \<or> c = CHR ''.''" by (auto simp: m split: if_splits)
    then show "c \<noteq> CHR ''e''"
    proof
      assume "c \<in> set m"
      with dig have "is_digit c" by blast
      with not_digit(4) show ?thesis by blast
    next
      assume "c = CHR ''.''"
      then show ?thesis by simp
    qed
  qed
  have tw: "takeWhile (\<lambda>c. c \<noteq> CHR ''e'') (exponent_form m n) = ?mant"
    unfolding str using mant_no_e by (simp add: takeWhile_append2)
  have no_dot: "\<forall>c \<in> set m. c \<noteq> CHR ''.''"
  proof
    fix c assume "c \<in> set m"
    with dig have "is_digit c" by blast
    with not_digit(3) show "c \<noteq> CHR ''.''" by blast
  qed
  then have "a \<noteq> CHR ''.''" and "filter (\<lambda>c. c \<noteq> CHR ''.'') as = as"
    by (simp_all add: m filter_id_conv)
  then have fl: "filter (\<lambda>c. c \<noteq> CHR ''.'') ?mant = m"
    by (simp add: m)
  have dr: "drop (length ?mant + 2) (exponent_form m n) = decimal (n - 1)"
    unfolding str by simp
  have e_in: "CHR ''e'' \<in> set (exponent_form m n)" unfolding str by simp
  have "denotation (exponent_form m n) =
      decimal_value m * 10 ^ (Suc (decimal_value (decimal (n - 1))) - length m)"
    unfolding denotation_def Let_def tw fl dr using e_in by simp
  then show ?thesis using n by (simp add: decimal_value_decimal)
qed

lemma to_double_zero: "to_double 0 = 0"
  by (simp add: to_double_def)

lemma Number_toString_large:
  assumes rep: "to_double x = x" and large: "2 ^ 53 \<le> x"
  obtains s z m where "0 < s" and "to_double (s * 10 ^ z) = x"
    and "m = strip_trailing_zeros (decimal s)" and "m \<noteq> []" and "\<forall>c \<in> set m. is_digit c"
    and "decimal_value m * 10 ^ (length (decimal s) + z - length m) = s * 10 ^ z"
    and "Number_toString x =
      (if length (decimal s) + z \<le> 21 then decimal s @ replicate z CHR ''0''
       else exponent_form m (length (decimal s) + z))"
proof -
  obtain s z where sh: "shortest x (length (decimal x) - 1) = (s, z)"
    and str: "Number_toString x =
      (if length (decimal s) + z \<le> 21 then decimal s @ replicate z CHR ''0''
       else exponent_form (strip_trailing_zeros (decimal s)) (length (decimal s) + z))"
    by (rule Number_toString_form)
  from shortest_rounds_back [OF rep sh] have rb: "to_double (s * 10 ^ z) = x" .
  from large have "0 < x" by (simp add: less_le_trans [of 0 "2 ^ 53"])
  have spos: "0 < s"
  proof (rule ccontr)
    assume "\<not> 0 < s"
    then have "s * 10 ^ z = 0" by simp
    with rb to_double_zero have "x = 0" by simp
    with \<open>0 < x\<close> show False by simp
  qed
  let ?ds = "decimal s"
  let ?m = "strip_trailing_zeros ?ds"
  let ?t = "length ?ds - length ?m"
  have split: "?ds = ?m @ replicate ?t CHR ''0''" by (rule strip_trailing_zeros_split)
  then have "decimal_value ?ds = decimal_value (?m @ replicate ?t CHR ''0'')" by simp
  then have val: "s = decimal_value ?m * 10 ^ ?t"
    by (simp only: decimal_value_zeros decimal_value_decimal)
  have mne: "?m \<noteq> []"
  proof
    assume "?m = []"
    then have "decimal_value ?m = 0" by (simp add: decimal_value_def)
    with val spos show False by simp
  qed
  have mdig: "\<forall>c \<in> set ?m. is_digit c"
    using strip_trailing_zeros_subset [of ?ds] decimal_digits [of _ s] by blast
  have "length ?m \<le> length ?ds"
    by (metis split length_append le_add1)
  then have "length ?ds + z - length ?m = ?t + z" by simp
  then have "decimal_value ?m * 10 ^ (length ?ds + z - length ?m) = decimal_value ?m * (10 ^ ?t * 10 ^ z)"
    by (simp only: power_add)
  also have "\<dots> = s * 10 ^ z" using val by (simp add: mult.assoc)
  finally have dv: "decimal_value ?m * 10 ^ (length ?ds + z - length ?m) = s * 10 ^ z" .
  from spos rb refl mne mdig dv str show ?thesis by (rule that)
qed

lemma decimal_value_digits_decimal:
  "denotation (decimal s @ replicate z CHR ''0'') = s * 10 ^ z"
proof -
  have "\<forall>c \<in> set (decimal s @ replicate z CHR ''0''). is_digit c"
    using decimal_digits [of _ s] is_digit_zero by auto
  from denotation_digits [OF this] show ?thesis
    by (simp only: decimal_value_zeros decimal_value_decimal)
qed

lemma Number_toString_denotes:
  assumes rep: "to_double x = x"
  shows "to_double (denotation (Number_toString x)) = x"
proof (cases "x < 2 ^ 53")
  case True
  then have "Number_toString x = decimal x" by (rule Number_toString_safe)
  moreover have "denotation (decimal x) = x"
    using decimal_value_digits_decimal [of x 0] by simp
  ultimately show ?thesis using rep by simp
next
  case False
  then have "2 ^ 53 \<le> x" by simp
  from Number_toString_large [OF rep this] obtain s z m where f: "0 < s" "to_double (s * 10 ^ z) = x"
    "m = strip_trailing_zeros (decimal s)" "m \<noteq> []" "\<forall>c \<in> set m. is_digit c"
    "decimal_value m * 10 ^ (length (decimal s) + z - length m) = s * 10 ^ z"
    "Number_toString x =
      (if length (decimal s) + z \<le> 21 then decimal s @ replicate z CHR ''0''
       else exponent_form m (length (decimal s) + z))" .
  have "denotation (Number_toString x) = s * 10 ^ z"
  proof (cases "length (decimal s) + z \<le> 21")
    case True
    with f(7) show ?thesis by (simp add: decimal_value_digits_decimal)
  next
    case False
    have "0 < length (decimal s) + z" using decimal_nonempty [of s] by simp
    from denotation_exponent_form [OF f(4,5) this] f(6,7) False show ?thesis by simp
  qed
  with f(2) show ?thesis by simp
qed

lemma Number_toString_inj:
  assumes "to_double x = x" and "to_double y = y" and "Number_toString x = Number_toString y"
  shows "x = y"
proof -
  have "x = to_double (denotation (Number_toString x))"
    using Number_toString_denotes [OF assms(1)] by simp
  also have "\<dots> = to_double (denotation (Number_toString y))" using assms(3) by simp
  also have "\<dots> = y" by (rule Number_toString_denotes [OF assms(2)])
  finally show ?thesis .
qed

lemma Number_toString_chars:
  assumes rep: "to_double x = x"
  shows "Number_toString x \<noteq> [] \<and> is_digit (hd (Number_toString x)) \<and>
         (\<forall>c \<in> set (Number_toString x). numeral_char c)"
proof (cases "x < 2 ^ 53")
  case True
  then have eq: "Number_toString x = decimal x" by (rule Number_toString_safe)
  have "decimal x \<noteq> []" by (rule decimal_nonempty)
  then have "hd (decimal x) \<in> set (decimal x)" by simp
  then have "is_digit (hd (decimal x))" by (rule decimal_digits)
  then show ?thesis
    unfolding eq using decimal_nonempty [of x] decimal_digits [of _ x] by (auto simp: numeral_char_def)
next
  case False
  then have "2 ^ 53 \<le> x" by simp
  from Number_toString_large [OF rep this] obtain s z m where f: "0 < s" "to_double (s * 10 ^ z) = x"
    "m = strip_trailing_zeros (decimal s)" "m \<noteq> []" "\<forall>c \<in> set m. is_digit c"
    "decimal_value m * 10 ^ (length (decimal s) + z - length m) = s * 10 ^ z"
    "Number_toString x =
      (if length (decimal s) + z \<le> 21 then decimal s @ replicate z CHR ''0''
       else exponent_form m (length (decimal s) + z))" .
  show ?thesis
  proof (cases "length (decimal s) + z \<le> 21")
    case True
    with f(7) have eq: "Number_toString x = decimal s @ replicate z CHR ''0''" by simp
    have ne: "decimal s \<noteq> []" by (rule decimal_nonempty)
    then have "hd (decimal s) \<in> set (decimal s)" by simp
    then have h: "is_digit (hd (decimal s))" by (rule decimal_digits)
    have "\<forall>c \<in> set (decimal s @ replicate z CHR ''0''). is_digit c"
      using decimal_digits [of _ s] is_digit_zero by auto
    then show ?thesis unfolding eq using ne h by (auto simp: numeral_char_def)
  next
    case False
    with f(7) have eq: "Number_toString x = exponent_form m (length (decimal s) + z)" by simp
    from f(4) obtain a as where m: "m = a # as" by (cases m) auto
    have str: "exponent_form m (length (decimal s) + z) =
           (a # (if as = [] then [] else CHR ''.'' # as)) @ CHR ''e'' # CHR ''+'' #
           decimal (length (decimal s) + z - 1)"
      by (rule exponent_form_parts [OF m])
    have a: "is_digit a" using f(5) m by simp
    have as: "\<forall>c \<in> set as. is_digit c" using f(5) m by simp
    have ex: "\<forall>c \<in> set (decimal (length (decimal s) + z - 1)). is_digit c"
      using decimal_digits by blast
    show ?thesis unfolding eq str using a as ex by (auto simp: numeral_char_def split: if_splits)
  qed
qed

lemma numeral_char_not_special:
  "numeral_char c \<Longrightarrow> c \<noteq> CHR ''/'' \<and> c \<noteq> CHR ''-''"
  using not_digit(1,2) by (auto simp: numeral_char_def)

lemma safe_integer_is_Number_integer: "is_safe_integer i \<Longrightarrow> is_Number_integer i"
proof -
  assume "is_safe_integer i"
  then have s: "nat \<bar>i\<bar> < 2 ^ 53" by (simp add: is_safe_integer_def nat_less_iff)
  then have "to_double (nat \<bar>i\<bar>) = nat \<bar>i\<bar>" by (rule to_double_small)
  moreover have "(2::nat) ^ 53 < 2 ^ 1024" by simp
  with s have "nat \<bar>i\<bar> < 2 ^ 1024" by (rule less_trans)
  ultimately show ?thesis by (simp add: is_Number_integer_def is_double_def)
qed

lemma number_to_string_safe:
  assumes "is_safe_integer i"
  shows "number_to_string i = decimal_rendering i"
proof -
  from assms have s: "nat \<bar>i\<bar> < 2 ^ 53" by (simp add: is_safe_integer_def nat_less_iff)
  show ?thesis
  proof (cases "i < 0")
    case True
    then have "nat (- i) = nat \<bar>i\<bar>" by simp
    with s have "Number_toString (nat (- i)) = decimal (nat (- i))"
      by (simp only: Number_toString_safe)
    with True show ?thesis by (simp add: number_to_string_def decimal_rendering_def)
  next
    case False
    then have "nat i = nat \<bar>i\<bar>" by simp
    with s have "Number_toString (nat i) = decimal (nat i)"
      by (simp only: Number_toString_safe)
    with False show ?thesis by (simp add: number_to_string_def decimal_rendering_def)
  qed
qed

lemma signed_decimal_value_decimal_rendering: "signed_decimal_value (decimal_rendering i) = i"
proof (cases "i < 0")
  case True
  then show ?thesis
    by (simp add: decimal_rendering_def signed_decimal_value_def decimal_value_decimal)
next
  case False
  obtain c cs where d: "decimal (nat i) = c # cs"
    using decimal_nonempty [of "nat i"] by (cases "decimal (nat i)") auto
  then have "c \<in> set (decimal (nat i))" by simp
  then have "is_digit c" by (rule decimal_digits)
  with not_digit(2) have "c \<noteq> CHR ''-''" by auto
  moreover have "decimal_value (c # cs) = nat i"
    using decimal_value_decimal [of "nat i"] d by simp
  ultimately show ?thesis
    using False d by (simp add: decimal_rendering_def signed_decimal_value_def)
qed

lemma Number_integer_parts:
  assumes "is_Number_integer i"
  shows "to_double (nat (- i)) = nat (- i)" and "to_double (nat i) = nat i"
proof -
  from assms have r: "to_double (nat \<bar>i\<bar>) = nat \<bar>i\<bar>"
    by (simp add: is_Number_integer_def is_double_def)
  show "to_double (nat (- i)) = nat (- i)"
  proof (cases "i < 0")
    case True
    then have a: "\<bar>i\<bar> = - i" by simp
    from r show ?thesis unfolding a .
  next
    case False
    then have z: "nat (- i) = 0" by simp
    show ?thesis unfolding z by (rule to_double_zero)
  qed
  show "to_double (nat i) = nat i"
  proof (cases "i < 0")
    case True
    then have z: "nat i = 0" by simp
    show ?thesis unfolding z by (rule to_double_zero)
  next
    case False
    then have a: "\<bar>i\<bar> = i" by simp
    from r show ?thesis unfolding a .
  qed
qed

lemma Number_toString_no_slash:
  assumes "to_double x = x"
  shows "CHR ''/'' \<notin> set (Number_toString x)"
proof
  assume "CHR ''/'' \<in> set (Number_toString x)"
  moreover from Number_toString_chars [OF assms]
  have "\<forall>c \<in> set (Number_toString x). numeral_char c" by simp
  ultimately have "numeral_char CHR ''/''" by simp
  from numeral_char_not_special [OF this] show False by simp
qed

lemma number_to_string_no_slash:
  assumes "is_Number_integer i"
  shows "CHR ''/'' \<notin> set (number_to_string i)"
  using Number_toString_no_slash [OF Number_integer_parts(1) [OF assms]]
    Number_toString_no_slash [OF Number_integer_parts(2) [OF assms]]
  by (simp add: number_to_string_def)

lemma Number_toString_no_sign:
  assumes "to_double x = x"
  shows "Number_toString x \<noteq> CHR ''-'' # cs"
proof
  assume "Number_toString x = CHR ''-'' # cs"
  then have "hd (Number_toString x) = CHR ''-''" by simp
  with Number_toString_chars [OF assms] have "is_digit CHR ''-''" by simp
  with not_digit(2) show False by simp
qed

lemma number_to_string_inj:
  assumes i: "is_Number_integer i" and j: "is_Number_integer j"
    and eq: "number_to_string i = number_to_string j"
  shows "i = j"
proof (cases "i < 0")
  case True
  show ?thesis
  proof (cases "j < 0")
    case jn: True
    with True eq have "Number_toString (nat (- i)) = Number_toString (nat (- j))"
      by (simp add: number_to_string_def)
    from Number_toString_inj [OF Number_integer_parts(1) [OF i] Number_integer_parts(1) [OF j] this]
    show ?thesis using True jn by simp
  next
    case False
    with True eq have "Number_toString (nat j) = CHR ''-'' # Number_toString (nat (- i))"
      by (simp add: number_to_string_def)
    then have False
      by (rule Number_toString_no_sign [OF Number_integer_parts(2) [OF j], THEN notE])
    then show ?thesis ..
  qed
next
  case False
  show ?thesis
  proof (cases "j < 0")
    case True
    with False eq have "Number_toString (nat i) = CHR ''-'' # Number_toString (nat (- j))"
      by (simp add: number_to_string_def)
    then have False
      by (rule Number_toString_no_sign [OF Number_integer_parts(2) [OF i], THEN notE])
    then show ?thesis ..
  next
    case jp: False
    with False eq have "Number_toString (nat i) = Number_toString (nat j)"
      by (simp add: number_to_string_def)
    from Number_toString_inj [OF Number_integer_parts(2) [OF i] Number_integer_parts(2) [OF j] this]
    show ?thesis using False jp by simp
  qed
qed

lemma split_at_last_separator:
  assumes eq: "xs @ c # ys = xs' @ c # ys'" and "c \<notin> set ys" and "c \<notin> set ys'"
  shows "xs = xs' \<and> ys = ys'"
proof -
  have "rev ys @ c # rev xs = rev ys' @ c # rev xs'"
    using arg_cong [OF eq, of rev] by simp
  then have "takeWhile (\<lambda>x. x \<noteq> c) (rev ys @ c # rev xs) = takeWhile (\<lambda>x. x \<noteq> c) (rev ys' @ c # rev xs')"
    by simp
  moreover have "takeWhile (\<lambda>x. x \<noteq> c) (rev ys @ c # rev xs) = rev ys"
    using assms(2) by (auto simp: takeWhile_tail)
  moreover have "takeWhile (\<lambda>x. x \<noteq> c) (rev ys' @ c # rev xs') = rev ys'"
    using assms(3) by (auto simp: takeWhile_tail)
  ultimately have "ys = ys'" by simp
  with eq show ?thesis by simp
qed

lemma versioned_url_determines_record_id:
  assumes i1: "is_Number_integer (version r1)" and i2: "is_Number_integer (version r2)"
    and eq: "ontologyTypeRecordIdToVersionedUrl r1 = ontologyTypeRecordIdToVersionedUrl r2"
  shows "baseUrl r1 = baseUrl r2 \<and> version r1 = version r2"
proof -
  from eq have "(baseUrl r1 @ ''v'') @ CHR ''/'' # number_to_string (version r1) =
      (baseUrl r2 @ ''v'') @ CHR ''/'' # number_to_string (version r2)"
    by (simp add: ontologyTypeRecordIdToVersionedUrl_def)
  from split_at_last_separator [OF this number_to_string_no_slash [OF i1] number_to_string_no_slash [OF i2]]
  have "baseUrl r1 @ ''v'' = baseUrl r2 @ ''v''" "number_to_string (version r1) = number_to_string (version r2)"
    by simp_all
  then show ?thesis using number_to_string_inj [OF i1 i2] by simp
qed

lemma shortest_unfold:
  "shortest x z =
     (if z = 0 then (x, 0)
      else if (0 < x div 10 ^ z \<and> to_double (x div 10 ^ z * 10 ^ z) = x) \<and>
              (to_double (Suc (x div 10 ^ z) * 10 ^ z) \<noteq> x \<or>
               x - x div 10 ^ z * 10 ^ z < Suc (x div 10 ^ z) * 10 ^ z - x \<or>
               (x - x div 10 ^ z * 10 ^ z = Suc (x div 10 ^ z) * 10 ^ z - x \<and> even (x div 10 ^ z)))
           then (x div 10 ^ z, z)
           else if to_double (Suc (x div 10 ^ z) * 10 ^ z) = x then (Suc (x div 10 ^ z), z)
           else shortest x (z - 1))"
proof (cases z)
  case 0
  then show ?thesis by simp
next
  case (Suc k)
  show ?thesis unfolding Suc
    by (simp only: shortest.simps Let_def nat.distinct if_False diff_Suc_1)
qed

lemma digit_chars:
  "digit_char 0 = CHR ''0''" "digit_char (Suc 0) = CHR ''1''" "digit_char 2 = CHR ''2''"
  "digit_char 3 = CHR ''3''" "digit_char 4 = CHR ''4''" "digit_char 5 = CHR ''5''"
  "digit_char 6 = CHR ''6''" "digit_char 7 = CHR ''7''" "digit_char 8 = CHR ''8''"
  "digit_char 9 = CHR ''9''"
  by code_simp+

lemma to_double_2_64: "to_double 18446744073709551616 = 18446744073709551616"
  by (simp add: to_double_def bit_length.simps Let_def)

lemma decimal_2_64: "decimal 18446744073709551616 = ''18446744073709551616''"
  by (simp add: decimal.simps digit_chars)

lemma shortest_2_64: "shortest 18446744073709551616 19 = (18446744073709552, 3)"
  by (simp add: shortest_unfold to_double_def bit_length.simps Let_def)

lemma decimal_shortest_2_64: "decimal 18446744073709552 = ''18446744073709552''"
  by (simp add: decimal.simps digit_chars)

lemma Number_toString_2_64: "Number_toString 18446744073709551616 = ''18446744073709552000''"
proof -
  have len: "length ''18446744073709551616'' - 1 = 19" by simp
  show ?thesis unfolding Number_toString_def decimal_2_64 len shortest_2_64
    by (simp add: decimal_shortest_2_64 numeral_3_eq_3)
qed

lemma to_double_1e21: "to_double 1000000000000000000000 = 1000000000000000000000"
  by (simp add: to_double_def bit_length.simps Let_def)

lemma decimal_1e21: "decimal 1000000000000000000000 = ''1000000000000000000000''"
  by (simp add: decimal.simps digit_chars)

lemma shortest_1e21: "shortest 1000000000000000000000 21 = (1, 21)"
  by (simp add: shortest_unfold to_double_def bit_length.simps Let_def)

lemma decimal_21: "decimal 21 = ''21''"
  by (simp add: decimal.simps digit_chars)

lemma decimal_1: "decimal (Suc 0) = ''1''"
  by (simp add: decimal.simps digit_chars)

lemma Number_toString_1e21: "Number_toString 1000000000000000000000 = ''1e+21''"
proof -
  have len: "length ''1000000000000000000000'' - 1 = 21" by simp
  show ?thesis unfolding Number_toString_def decimal_1e21 len shortest_1e21
    by (simp add: decimal_1 decimal_21 exponent_form_def strip_trailing_zeros_def)
qed

text \<open>
  C6. The versioned URL of a record id whose version is a safe integer is its base URL,
  then \<open>v/\<close>, then the decimal rendering of the version (the numeral that reads back as
  the version); and two record ids with integer versions whose base URLs end in a slash
  and whose versioned URLs coincide have the same base URL and the same version.
\<close>

theorem versioned_url_composition_injective:
  "(is_safe_integer (version r) \<longrightarrow>
      ontologyTypeRecordIdToVersionedUrl r =
        baseUrl r @ ''v/'' @ decimal_rendering (version r)) \<and>
   signed_decimal_value (decimal_rendering (version r)) = version r \<and>
   (is_Number_integer (version r1) \<and> is_Number_integer (version r2) \<and>
    ends_with_slash (baseUrl r1) \<and> ends_with_slash (baseUrl r2) \<and>
    ontologyTypeRecordIdToVersionedUrl r1 = ontologyTypeRecordIdToVersionedUrl r2 \<longrightarrow>
      baseUrl r1 = baseUrl r2 \<and> version r1 = version r2)"
proof (intro conjI impI)
  assume "is_safe_integer (version r)"
  then show "ontologyTypeRecordIdToVersionedUrl r =
      baseUrl r @ ''v/'' @ decimal_rendering (version r)"
    by (simp add: ontologyTypeRecordIdToVersionedUrl_def number_to_string_safe)
next
  show "signed_decimal_value (decimal_rendering (version r)) = version r"
    by (rule signed_decimal_value_decimal_rendering)
next
  assume a: "is_Number_integer (version r1) \<and> is_Number_integer (version r2) \<and>
    ends_with_slash (baseUrl r1) \<and> ends_with_slash (baseUrl r2) \<and>
    ontologyTypeRecordIdToVersionedUrl r1 = ontologyTypeRecordIdToVersionedUrl r2"
  then have i1: "is_Number_integer (version r1)" and i2: "is_Number_integer (version r2)"
    and e: "ontologyTypeRecordIdToVersionedUrl r1 = ontologyTypeRecordIdToVersionedUrl r2"
    by simp_all
  from versioned_url_determines_record_id [OF i1 i2 e]
  show "baseUrl r1 = baseUrl r2" and "version r1 = version r2" by simp_all
qed

theorem versioned_url_composition_injective_witness:
  "is_safe_integer (version user_type_v3) \<and>
   is_Number_integer (version user_type_v3) \<and>
   is_Number_integer (version user_type_bumped) \<and>
   ends_with_slash (baseUrl user_type_v3) \<and> ends_with_slash (baseUrl user_type_bumped) \<and>
   ontologyTypeRecordIdToVersionedUrl user_type_v3 =
     ''https://hash.ai/@hash/types/entity-type/user/v/3'' \<and>
   ontologyTypeRecordIdToVersionedUrl user_type_bumped =
     ''https://hash.ai/@hash/types/entity-type/user/v/3'' \<and>
   baseUrl user_type_v3 = baseUrl user_type_bumped \<and>
   version user_type_v3 = version user_type_bumped"
proof -
  have d3: "decimal 3 = ''3''" by (simp add: decimal.simps digit_chars)
  have safe: "is_safe_integer (version user_type_v3)"
    by (simp add: is_safe_integer_def user_type_v3_def)
  have safe': "is_safe_integer (version user_type_bumped)"
    by (simp add: is_safe_integer_def user_type_bumped_def)
  have i1: "is_Number_integer (version user_type_v3)"
    using safe by (rule safe_integer_is_Number_integer)
  have i2: "is_Number_integer (version user_type_bumped)"
    using safe' by (rule safe_integer_is_Number_integer)
  have s1: "ends_with_slash (baseUrl user_type_v3)"
    by (simp add: ends_with_slash_def user_type_v3_def)
  have s2: "ends_with_slash (baseUrl user_type_bumped)"
    by (simp add: ends_with_slash_def user_type_bumped_def)
  from versioned_url_composition_injective [of user_type_v3 user_type_v3 user_type_bumped] safe
  have u1: "ontologyTypeRecordIdToVersionedUrl user_type_v3 =
      ''https://hash.ai/@hash/types/entity-type/user/v/3''"
    by (simp add: user_type_v3_def decimal_rendering_def d3)
  from versioned_url_composition_injective [of user_type_bumped user_type_v3 user_type_bumped] safe'
  have u2: "ontologyTypeRecordIdToVersionedUrl user_type_bumped =
      ''https://hash.ai/@hash/types/entity-type/user/v/3''"
    by (simp add: user_type_bumped_def decimal_rendering_def d3)
  from versioned_url_composition_injective [of user_type_v3 user_type_v3 user_type_bumped]
    i1 i2 s1 s2 u1 u2
  have "baseUrl user_type_v3 = baseUrl user_type_bumped \<and>
        version user_type_v3 = version user_type_bumped"
    by simp
  with safe i1 i2 s1 s2 u1 u2 show ?thesis by simp
qed

text \<open>
  C6, without the restriction to safe integers. A version of \<open>2\<^sup>6\<^sup>4\<close> is an integer-valued
  number, and the template literal prints it with the shortest digits that round to it,
  \<open>18446744073709552000\<close>, which is not the decimal rendering of \<open>2\<^sup>6\<^sup>4\<close>; a version of
  \<open>10\<^sup>2\<^sup>1\<close> is printed in exponent notation.
\<close>

theorem versioned_url_not_decimal_rendering_counterexample:
  "is_Number_integer (version user_type_v2_64) \<and>
   ends_with_slash (baseUrl user_type_v2_64) \<and>
   ontologyTypeRecordIdToVersionedUrl user_type_v2_64 =
     ''https://hash.ai/@hash/types/entity-type/user/v/18446744073709552000'' \<and>
   baseUrl user_type_v2_64 @ ''v/'' @ decimal_rendering (version user_type_v2_64) =
     ''https://hash.ai/@hash/types/entity-type/user/v/18446744073709551616'' \<and>
   is_Number_integer (version user_type_v1e21) \<and>
   ends_with_slash (baseUrl user_type_v1e21) \<and>
   ontologyTypeRecordIdToVersionedUrl user_type_v1e21 =
     ''https://hash.ai/@hash/types/entity-type/user/v/1e+21'' \<and>
   baseUrl user_type_v1e21 @ ''v/'' @ decimal_rendering (version user_type_v1e21) =
     ''https://hash.ai/@hash/types/entity-type/user/v/1000000000000000000000''"
proof -
  have v1: "version user_type_v2_64 = 18446744073709551616"
    by (simp add: user_type_v2_64_def)
  have v2: "version user_type_v1e21 = 1000000000000000000000"
    by (simp add: user_type_v1e21_def)
  have i1: "is_Number_integer (version user_type_v2_64)"
    unfolding v1 by (simp add: is_Number_integer_def is_double_def to_double_2_64)
  have i2: "is_Number_integer (version user_type_v1e21)"
    unfolding v2 by (simp add: is_Number_integer_def is_double_def to_double_1e21)
  have s1: "ends_with_slash (baseUrl user_type_v2_64)"
    by (simp add: ends_with_slash_def user_type_v2_64_def)
  have s2: "ends_with_slash (baseUrl user_type_v1e21)"
    by (simp add: ends_with_slash_def user_type_v1e21_def)
  have u1: "ontologyTypeRecordIdToVersionedUrl user_type_v2_64 =
      ''https://hash.ai/@hash/types/entity-type/user/v/18446744073709552000''"
    unfolding ontologyTypeRecordIdToVersionedUrl_def v1
    by (simp add: user_type_v2_64_def number_to_string_def Number_toString_2_64)
  have u2: "ontologyTypeRecordIdToVersionedUrl user_type_v1e21 =
      ''https://hash.ai/@hash/types/entity-type/user/v/1e+21''"
    unfolding ontologyTypeRecordIdToVersionedUrl_def v2
    by (simp add: user_type_v1e21_def number_to_string_def Number_toString_1e21)
  have d1: "baseUrl user_type_v2_64 @ ''v/'' @ decimal_rendering (version user_type_v2_64) =
      ''https://hash.ai/@hash/types/entity-type/user/v/18446744073709551616''"
    unfolding v1 by (simp add: user_type_v2_64_def decimal_rendering_def decimal_2_64)
  have d2: "baseUrl user_type_v1e21 @ ''v/'' @ decimal_rendering (version user_type_v1e21) =
      ''https://hash.ai/@hash/types/entity-type/user/v/1000000000000000000000''"
    unfolding v2 by (simp add: user_type_v1e21_def decimal_rendering_def decimal_1e21)
  from i1 s1 u1 d1 i2 s2 u2 d2 show ?thesis by simp
qed

section \<open>Properties of the record id type guard\<close>

lemma isOntologyTypeRecordId_needs_baseId:
  "editionId ''baseId'' = None \<Longrightarrow> \<not> isOntologyTypeRecordId validateBaseUrl editionId"
  by (simp add: isOntologyTypeRecordId_def)

lemma isOntologyTypeRecordId_ignores_baseUrl:
  "isOntologyTypeRecordId validateBaseUrl (editionId(''baseUrl'' := x)) =
     isOntologyTypeRecordId validateBaseUrl editionId"
  by (simp add: isOntologyTypeRecordId_def split: option.splits js_value.splits)

text \<open>
  C3. The guard is declared to recognise objects with a valid string \<^verbatim>\<open>baseUrl\<close> and an
  integer \<^verbatim>\<open>version\<close>, yet it probes the field \<^verbatim>\<open>baseId\<close>: an object of exactly the
  declared shape is rejected, and an object without any \<^verbatim>\<open>baseUrl\<close> but with a valid
  \<^verbatim>\<open>baseId\<close> is accepted.
\<close>

theorem isOntologyTypeRecordId_probes_baseId:
  "has_record_id_shape accept_https record_id_object \<and>
   \<not> isOntologyTypeRecordId accept_https record_id_object \<and>
   \<not> has_record_id_shape accept_https legacy_object \<and>
   isOntologyTypeRecordId accept_https legacy_object"
  by (simp add: has_record_id_shape_def isOntologyTypeRecordId_def record_id_object_def
      legacy_object_def accept_https_def)

section \<open>Properties of the metadata predicates\<close>

text \<open>
  C2, as stated, fails: the union type admits a value that carries both \<^verbatim>\<open>ownedById\<close>
  and \<^verbatim>\<open>fetchedAt\<close>, and both predicates hold of it.
\<close>

theorem metadata_both_predicates_counterexample:
  "is_OntologyElementMetadata owned_and_fetched_metadata \<and>
   isOwnedOntologyElementMetadata owned_and_fetched_metadata \<and>
   isExternalOntologyElementMetadata owned_and_fetched_metadata \<and>
   \<not> (isOwnedOntologyElementMetadata owned_and_fetched_metadata \<noteq>
        isExternalOntologyElementMetadata owned_and_fetched_metadata)"
  by (simp add: is_OntologyElementMetadata_def is_OwnedOntologyElementMetadata_def
      isOwnedOntologyElementMetadata_def isExternalOntologyElementMetadata_def
      owned_and_fetched_metadata_def owned_metadata_def)

text \<open>
  C2, amended. Every value of the union type satisfies at least one of the two predicates;
  \<open>isOwnedOntologyElementMetadata\<close> holds exactly when \<^verbatim>\<open>ownedById\<close> is present and
  \<open>isExternalOntologyElementMetadata\<close> exactly when \<^verbatim>\<open>fetchedAt\<close> is present; and
  exactly one of them holds of every value that lacks one of the two fields.
\<close>

theorem metadata_predicates_by_field_presence:
  assumes "is_OntologyElementMetadata m"
  shows "(isOwnedOntologyElementMetadata m \<or> isExternalOntologyElementMetadata m) \<and>
         (isOwnedOntologyElementMetadata m \<longleftrightarrow> ownedById (custom m) \<noteq> None) \<and>
         (isExternalOntologyElementMetadata m \<longleftrightarrow> fetchedAt (custom m) \<noteq> None) \<and>
         (ownedById (custom m) = None \<or> fetchedAt (custom m) = None \<longrightarrow>
            isOwnedOntologyElementMetadata m \<noteq> isExternalOntologyElementMetadata m)"
proof -
  from assms have "ownedById (custom m) \<noteq> None \<or> fetchedAt (custom m) \<noteq> None"
    by (auto simp: is_OntologyElementMetadata_def is_OwnedOntologyElementMetadata_def
        is_ExternalOntologyElementMetadata_def split: option.splits)
  then show ?thesis
    by (auto simp: isOwnedOntologyElementMetadata_def isExternalOntologyElementMetadata_def)
qed

theorem metadata_predicates_by_field_presence_witness:
  "is_OntologyElementMetadata owned_metadata \<and>
   isOwnedOntologyElementMetadata owned_metadata \<and>
   \<not> isExternalOntologyElementMetadata owned_metadata"
proof -
  have t: "is_OntologyElementMetadata owned_metadata"
    by (simp add: is_OntologyElementMetadata_def is_OwnedOntologyElementMetadata_def
        owned_metadata_def)
  have f: "fetchedAt (custom owned_metadata) = None" and w: "ownedById (custom owned_metadata) = Some 1"
    by (simp_all add: owned_metadata_def)
  from metadata_predicates_by_field_presence [OF t] f w
  have "isOwnedOntologyElementMetadata owned_metadata"
    and "\<not> isExternalOntologyElementMetadata owned_metadata"
    by simp_all
  with t show ?thesis by simp
qed

section \<open>Properties of org memberships\<close>

lemma getOrgMembershipFromLinkEntity_ok:
  "entityTypeId (metadata le) = schema_id (linkEntityType_orgMembership st) \<Longrightarrow>
     getOrgMembershipFromLinkEntity st le = Inr \<lparr>linkEntity = le\<rparr>"
  by (simp add: getOrgMembershipFromLinkEntity_def)

lemma getOrgMembershipFromLinkEntity_mismatch:
  "entityTypeId (metadata le) \<noteq> schema_id (linkEntityType_orgMembership st) \<Longrightarrow>
     getOrgMembershipFromLinkEntity st le =
       Inl (EntityTypeMismatchError (entity_id (recordId (metadata le)))
              (schema_id (entityType_user st)) (entityTypeId (metadata le)))"
  by (simp add: getOrgMembershipFromLinkEntity_def)

text \<open>
  C1. The function compares the link entity's type with the org-membership link type, but
  the error it throws names the user entity type as the expected one. On a link entity of
  another type, under system types whose user type and org-membership type differ, the
  expected type of the error is not the type that was checked.
\<close>

theorem getOrgMembershipFromLinkEntity_names_user_type:
  "getOrgMembershipFromLinkEntity hash_system_types friendship_link =
     Inl (EntityTypeMismatchError (7, 42)
            ''https://hash.ai/@hash/types/entity-type/user/v/1''
            ''https://hash.ai/@hash/types/entity-type/friend-of/v/1'') \<and>
   schema_id (linkEntityType_orgMembership hash_system_types) =
     ''https://hash.ai/@hash/types/entity-type/org-membership/v/1'' \<and>
   schema_id (linkEntityType_orgMembership hash_system_types) \<noteq>
     ''https://hash.ai/@hash/types/entity-type/user/v/1''"
  by (simp add: getOrgMembershipFromLinkEntity_def hash_system_types_def friendship_link_def)

section \<open>Properties of the graph store\<close>

lemma overlaps_iff: "overlaps i j \<longleftrightarrow> (\<exists>t. contains i t \<and> contains j t)"
proof
  assume "overlaps i j"
  then show "\<exists>t. contains i t \<and> contains j t"
    unfolding overlaps_def Let_def by blast
next
  assume "\<exists>t. contains i t \<and> contains j t"
  then obtain t where t: "contains i t" "contains j t" by blast
  let ?m = "max (first_instant (interval_start i)) (first_instant (interval_start j))"
  from t have "?m \<le> t" by (simp add: contains_def)
  with t have "contains i ?m" "contains j ?m"
    by (auto simp: contains_def split: option.splits)
  then show "overlaps i j" by (simp add: overlaps_def)
qed

lemma overlaps_sym: "overlaps i j = overlaps j i"
  by (auto simp: overlaps_iff)

lemma contains_close:
  "contains (i\<lparr>interval_end := Exclusive at\<rparr>) t \<Longrightarrow> interval_end i = Unbounded \<Longrightarrow> contains i t"
  by (simp add: contains_def)

lemma overlaps_close:
  "interval_end i = Unbounded \<Longrightarrow> overlaps (i\<lparr>interval_end := Exclusive at\<rparr>) j \<Longrightarrow> overlaps i j"
  unfolding overlaps_iff using contains_close by blast

lemma no_overlap_after_limit:
  "limit (interval_end i) = Some b \<Longrightarrow> b \<le> a \<Longrightarrow>
     \<not> overlaps i \<lparr>interval_start = Inclusive a, interval_end = e\<rparr>"
  by (auto simp: overlaps_iff contains_def)

lemma pairwise_disjoint_append:
  "pairwise_disjoint (xs @ ys) \<longleftrightarrow>
     pairwise_disjoint xs \<and> pairwise_disjoint ys \<and> (\<forall>x \<in> set xs. \<forall>y \<in> set ys. \<not> overlaps x y)"
  by (induction xs) (auto simp: list_all_iff)

lemma temporal_ok_absent:
  "eid \<notin> identity ` set vs \<Longrightarrow> temporal_ok vs eid"
proof -
  assume "eid \<notin> identity ` set vs"
  then have "filter (\<lambda>v. identity v = eid) vs = []"
    by (auto simp: filter_empty_conv)
  then show ?thesis by (simp add: temporal_ok_def)
qed

lemma store_invariant_temporal:
  "store_invariant g \<Longrightarrow> temporal_ok (versions g) eid"
proof (cases "eid \<in> identity ` set (versions g)")
  case True
  assume "store_invariant g"
  with True show ?thesis by (auto simp: store_invariant_def list_all_iff)
next
  case False
  then show ?thesis by (rule temporal_ok_absent)
qed

lemma identity_closed_at [simp]: "identity (closed_at at v) = identity v"
  by (simp add: closed_at_def identity_def)

lemma not_open_closed_at [simp]: "\<not> is_open (closed_at at v)"
  by (simp add: closed_at_def is_open_def)

lemma close_version_Some:
  "close_version eid at vs = Some vs' \<Longrightarrow>
     \<exists>xs v ys. vs = xs @ v # ys \<and> identity v = eid \<and> is_open v \<and>
        (\<forall>x \<in> set xs. \<not> (identity x = eid \<and> is_open x)) \<and> vs' = xs @ closed_at at v # ys"
proof (induction vs arbitrary: vs')
  case Nil
  then show ?case by simp
next
  case (Cons w ws)
  show ?case
  proof (cases "identity w = eid \<and> is_open w")
    case True
    with Cons.prems have "vs' = closed_at at w # ws" by (auto simp: closed_at_def)
    then have "w # ws = [] @ w # ws \<and> vs' = [] @ closed_at at w # ws" by simp
    moreover have "\<forall>x \<in> set []. \<not> (identity x = eid \<and> is_open x)" by simp
    ultimately show ?thesis using True by blast
  next
    case False
    with Cons.prems obtain ws' where ws': "close_version eid at ws = Some ws'" "vs' = w # ws'"
      by auto
    from Cons.IH [OF ws'(1)] obtain xs v ys where d: "ws = xs @ v # ys" "identity v = eid"
      "is_open v" "\<forall>x \<in> set xs. \<not> (identity x = eid \<and> is_open x)" "ws' = xs @ closed_at at v # ys"
      by blast
    have "w # ws = (w # xs) @ v # ys" using d(1) by simp
    moreover have "\<forall>x \<in> set (w # xs). \<not> (identity x = eid \<and> is_open x)"
      using d(4) False by simp
    moreover have "vs' = (w # xs) @ closed_at at v # ys" using ws'(2) d(5) by simp
    ultimately show ?thesis using d(2,3) by blast
  qed
qed

lemma close_version_None:
  "close_version eid at vs = None \<longleftrightarrow> find (\<lambda>v. identity v = eid \<and> is_open v) vs = None"
  by (induction vs) auto

lemma find_split:
  "vs = xs @ v # ys \<Longrightarrow> P v \<Longrightarrow> \<forall>x \<in> set xs. \<not> P x \<Longrightarrow> find P vs = Some v"
  by (induction xs arbitrary: vs) auto

lemma temporal_ok_other_close:
  assumes "identity v = eid" and "eid0 \<noteq> eid"
  shows "temporal_ok (xs @ closed_at at v # ys) eid0 = temporal_ok (xs @ v # ys) eid0"
  using assms by (simp add: temporal_ok_def)

lemma open_count_split:
  assumes "length (filter is_open (fx @ v # fy)) \<le> 1" and "is_open v"
  shows "filter is_open fx = []" and "filter is_open fy = []"
  using assms by (auto simp: filter_empty_conv dest!: split_list) 

lemma temporal_ok_same_close:
  assumes ok: "temporal_ok (xs @ v # ys) eid" and idv: "identity v = eid" and op: "is_open v"
  shows "temporal_ok (xs @ closed_at at v # ys) eid"
    and "filter is_open (filter (\<lambda>x. identity x = eid) (xs @ closed_at at v # ys)) = []"
proof -
  let ?fx = "filter (\<lambda>x. identity x = eid) xs" and ?fy = "filter (\<lambda>x. identity x = eid) ys"
  have mine: "filter (\<lambda>x. identity x = eid) (xs @ v # ys) = ?fx @ v # ?fy"
    using idv by simp
  have mine': "filter (\<lambda>x. identity x = eid) (xs @ closed_at at v # ys) = ?fx @ closed_at at v # ?fy"
    using idv by simp
  from ok mine have pd: "pairwise_disjoint (map transaction ?fx @ transaction v # map transaction ?fy)"
    and cnt: "length (filter is_open (?fx @ v # ?fy)) \<le> 1"
    by (simp_all add: temporal_ok_def)
  from open_count_split [OF cnt op] have nofx: "filter is_open ?fx = []" and nofy: "filter is_open ?fy = []" .
  have unb: "interval_end (transaction v) = Unbounded" using op by (simp add: is_open_def)
  have tr: "transaction (closed_at at v) = (transaction v)\<lparr>interval_end := Exclusive at\<rparr>"
    by (simp add: closed_at_def)
  from pd have a: "pairwise_disjoint (map transaction ?fx)"
    and b: "pairwise_disjoint (map transaction ?fy)"
    and c: "\<forall>y \<in> set (map transaction ?fy). \<not> overlaps (transaction v) y"
    and d: "\<forall>x \<in> set (map transaction ?fx). \<not> overlaps x (transaction v)"
    and e: "\<forall>x \<in> set (map transaction ?fx). \<forall>y \<in> set (map transaction ?fy). \<not> overlaps x y"
    by (auto simp: pairwise_disjoint_append list_all_iff)
  have c': "\<forall>y \<in> set (map transaction ?fy). \<not> overlaps (transaction (closed_at at v)) y"
    using c overlaps_close [OF unb] unfolding tr by blast
  have d': "\<forall>x \<in> set (map transaction ?fx). \<not> overlaps x (transaction (closed_at at v))"
  proof
    fix x assume "x \<in> set (map transaction ?fx)"
    with d have "\<not> overlaps x (transaction v)" by blast
    then have "\<not> overlaps (transaction v) x" using overlaps_sym by blast
    with overlaps_close [OF unb] have "\<not> overlaps ((transaction v)\<lparr>interval_end := Exclusive at\<rparr>) x"
      by blast
    then show "\<not> overlaps x (transaction (closed_at at v))" unfolding tr using overlaps_sym by blast
  qed
  have "pairwise_disjoint (map transaction ?fx @ transaction (closed_at at v) # map transaction ?fy)"
    using a b c' d' e by (auto simp: pairwise_disjoint_append list_all_iff)
  moreover have z: "filter is_open (?fx @ closed_at at v # ?fy) = []"
    using nofx nofy by simp
  ultimately show "temporal_ok (xs @ closed_at at v # ys) eid"
    unfolding temporal_ok_def Let_def mine' by simp
  show "filter is_open (filter (\<lambda>x. identity x = eid) (xs @ closed_at at v # ys)) = []"
    unfolding mine' by (rule z)
qed

lemma temporal_ok_append_other:
  "identity v \<noteq> eid0 \<Longrightarrow> temporal_ok (vs @ [v]) eid0 = temporal_ok vs eid0"
  by (simp add: temporal_ok_def)

lemma temporal_ok_append_new:
  assumes ok: "temporal_ok vs eid"
    and idv: "identity v = eid"
    and tr: "transaction v = \<lparr>interval_start = Inclusive c, interval_end = Unbounded\<rparr>"
    and past: "\<forall>x \<in> set vs. identity x = eid \<longrightarrow>
                 (\<exists>b. limit (interval_end (transaction x)) = Some b \<and> b \<le> c)"
  shows "temporal_ok (vs @ [v]) eid"
proof -
  let ?mine = "filter (\<lambda>x. identity x = eid) vs"
  have mine': "filter (\<lambda>x. identity x = eid) (vs @ [v]) = ?mine @ [v]" using idv by simp
  from ok have pd: "pairwise_disjoint (map transaction ?mine)" by (simp add: temporal_ok_def)
  have cross: "\<forall>x \<in> set (map transaction ?mine). \<not> overlaps x (transaction v)"
  proof
    fix i assume "i \<in> set (map transaction ?mine)"
    then obtain x where x: "x \<in> set vs" "identity x = eid" "i = transaction x" by auto
    with past obtain b where "limit (interval_end i) = Some b" "b \<le> c" by blast
    then show "\<not> overlaps i (transaction v)" unfolding tr by (rule no_overlap_after_limit)
  qed
  have closed: "filter is_open ?mine = []"
  proof -
    have "\<not> is_open x" if "x \<in> set ?mine" for x
    proof -
      from that past obtain b where "limit (interval_end (transaction x)) = Some b" by auto
      then show ?thesis by (auto simp: is_open_def)
    qed
    then show ?thesis by (auto simp: filter_empty_conv)
  qed
  have "pairwise_disjoint (map transaction ?mine @ [transaction v])"
    using pd cross by (simp add: pairwise_disjoint_append)
  then show ?thesis
    unfolding temporal_ok_def Let_def mine' using closed by simp
qed

lemma store_invariant_iff:
  "store_invariant g \<longleftrightarrow>
     (\<forall>v \<in> set (versions g). well_formed_version (clock g) (next_uuid g) v) \<and>
     (\<forall>eid. temporal_ok (versions g) eid)"
proof
  assume inv: "store_invariant g"
  then have "\<forall>v \<in> set (versions g). well_formed_version (clock g) (next_uuid g) v"
    by (simp add: store_invariant_def list_all_iff)
  moreover have "\<forall>eid. temporal_ok (versions g) eid"
    using store_invariant_temporal [OF inv] by blast
  ultimately show "(\<forall>v \<in> set (versions g). well_formed_version (clock g) (next_uuid g) v) \<and>
     (\<forall>eid. temporal_ok (versions g) eid)" by blast
next
  assume "(\<forall>v \<in> set (versions g). well_formed_version (clock g) (next_uuid g) v) \<and>
     (\<forall>eid. temporal_ok (versions g) eid)"
  then show "store_invariant g" unfolding store_invariant_def list_all_iff by blast
qed

lemma store_invariant_empty: "store_invariant empty_store"
  by (simp add: store_invariant_def empty_store_def)

lemma wf_mono:
  "well_formed_version c n v \<Longrightarrow> c \<le> c' \<Longrightarrow> n \<le> n' \<Longrightarrow> well_formed_version c' n' v"
  by (auto simp: well_formed_version_def split: temporal_bound.splits)

lemma wf_closed:
  "well_formed_version c n v \<Longrightarrow> identity v = eid \<Longrightarrow>
     well_formed_version (Suc c) n (closed_at c v)"
  by (auto simp: well_formed_version_def closed_at_def identity_def split: temporal_bound.splits)

lemma wf_open:
  "snd (identity v) < n \<Longrightarrow>
   transaction v = \<lparr>interval_start = Inclusive c, interval_end = Unbounded\<rparr> \<Longrightarrow>
     well_formed_version (Suc c) n v"
  by (simp add: well_formed_version_def)

lemma wf_limit:
  "well_formed_version c n x \<Longrightarrow> \<not> is_open x \<Longrightarrow>
     \<exists>b. limit (interval_end (transaction x)) = Some b \<and> b < c"
  by (auto simp: well_formed_version_def is_open_def split: temporal_bound.splits)

lemma wf_fresh:
  "\<forall>v \<in> set vs. well_formed_version c n v \<Longrightarrow> \<forall>x \<in> set vs. identity x \<noteq> (w, n)"
  by (auto simp: well_formed_version_def)

text \<open>Closing the open version of an identity at the clock, then committing.\<close>

lemma invariant_after_close:
  assumes inv: "store_invariant g"
    and cl: "close_version eid (clock g) (versions g) = Some closed"
  shows "\<forall>v \<in> set closed. well_formed_version (Suc (clock g)) (next_uuid g) v"
    and "\<forall>eid0. temporal_ok closed eid0"
    and "\<forall>x \<in> set closed. identity x = eid \<longrightarrow>
           (\<exists>b. limit (interval_end (transaction x)) = Some b \<and> b \<le> clock g)"
    and "\<exists>old. current g eid = Some old \<and> closed_at (clock g) old \<in> set closed \<and> identity old = eid"
proof -
  from close_version_Some [OF cl] obtain xs v ys where d: "versions g = xs @ v # ys"
    "identity v = eid" "is_open v" "\<forall>x \<in> set xs. \<not> (identity x = eid \<and> is_open x)"
    "closed = xs @ closed_at (clock g) v # ys" by blast
  from inv have wf: "\<forall>x \<in> set (versions g). well_formed_version (clock g) (next_uuid g) x"
    and ok: "\<And>e. temporal_ok (versions g) e"
    unfolding store_invariant_iff by blast+
  have wfv: "well_formed_version (Suc (clock g)) (next_uuid g) (closed_at (clock g) v)"
    using wf d(1) by (intro wf_closed [where eid = eid]) (simp_all add: d(2))
  show wf': "\<forall>x \<in> set closed. well_formed_version (Suc (clock g)) (next_uuid g) x"
  proof
    fix x assume "x \<in> set closed"
    then have "x = closed_at (clock g) v \<or> x \<in> set (versions g)" using d(1,5) by auto
    then show "well_formed_version (Suc (clock g)) (next_uuid g) x"
      using wfv wf wf_mono [of "clock g" "next_uuid g" x "Suc (clock g)" "next_uuid g"] by auto
  qed
  show "\<forall>eid0. temporal_ok closed eid0"
  proof
    fix eid0
    show "temporal_ok closed eid0"
    proof (cases "eid0 = eid")
      case True
      from ok [of eid] have "temporal_ok (xs @ v # ys) eid" by (simp add: d(1))
      from temporal_ok_same_close(1) [OF this d(2,3)] show ?thesis by (simp add: d(5) True)
    next
      case False
      from ok [of eid0] have "temporal_ok (xs @ v # ys) eid0" by (simp add: d(1))
      then show ?thesis using temporal_ok_other_close [OF d(2) False] by (simp add: d(5))
    qed
  qed
  show "\<forall>x \<in> set closed. identity x = eid \<longrightarrow>
           (\<exists>b. limit (interval_end (transaction x)) = Some b \<and> b \<le> clock g)"
  proof (intro ballI impI)
    fix x assume x: "x \<in> set closed" "identity x = eid"
    from ok [of eid] have t: "temporal_ok (xs @ v # ys) eid" by (simp add: d(1))
    from temporal_ok_same_close(2) [OF t d(2,3), of "clock g"] x
    have nopen: "\<not> is_open x" by (auto simp: d(5) filter_empty_conv)
    from x(1) have "x = closed_at (clock g) v \<or> x \<in> set (versions g)" using d(1,5) by auto
    then show "\<exists>b. limit (interval_end (transaction x)) = Some b \<and> b \<le> clock g"
    proof
      assume "x = closed_at (clock g) v"
      then show ?thesis by (simp add: closed_at_def)
    next
      assume "x \<in> set (versions g)"
      with wf have "well_formed_version (clock g) (next_uuid g) x" by blast
      from wf_limit [OF this nopen] show ?thesis by (auto intro: less_imp_le)
    qed
  qed
  have "current g eid = Some v"
    unfolding current_def using d(1) d(2,3) d(4) by (intro find_split [where xs = xs and ys = ys]) auto
  then show "\<exists>old. current g eid = Some old \<and> closed_at (clock g) old \<in> set closed \<and> identity old = eid"
    using d(2,5) by simp
qed

lemma invariant_after_open:
  assumes wf: "\<forall>v \<in> set vs. well_formed_version (Suc c) n v"
    and ok: "\<forall>eid0. temporal_ok vs eid0"
    and past: "\<forall>x \<in> set vs. identity x = identity v \<longrightarrow>
           (\<exists>b. limit (interval_end (transaction x)) = Some b \<and> b \<le> c)"
    and tr: "transaction v = \<lparr>interval_start = Inclusive c, interval_end = Unbounded\<rparr>"
    and fresh: "snd (identity v) < n'" and n: "n \<le> n'"
  shows "store_invariant \<lparr>versions = vs @ [v], clock = Suc c, next_uuid = n'\<rparr>"
proof -
  have "\<forall>x \<in> set (vs @ [v]). well_formed_version (Suc c) n' x"
    using wf wf_open [OF fresh tr] wf_mono [of "Suc c" n _ "Suc c" n'] n by auto
  moreover have "temporal_ok (vs @ [v]) eid0" for eid0
  proof (cases "identity v = eid0")
    case True
    from ok have t: "temporal_ok vs eid0" by blast
    have p: "\<forall>x \<in> set vs. identity x = eid0 \<longrightarrow>
           (\<exists>b. limit (interval_end (transaction x)) = Some b \<and> b \<le> c)"
      using past True by simp
    from temporal_ok_append_new [OF t True tr p] show ?thesis .
  next
    case False
    from ok have "temporal_ok vs eid0" by blast
    with False show ?thesis by (simp add: temporal_ok_append_other)
  qed
  ultimately show ?thesis unfolding store_invariant_iff by simp
qed

lemma find_append_none:
  "\<forall>x \<in> set xs. \<not> P x \<Longrightarrow> find P (xs @ ys) = find P ys"
  by (induction xs) auto

lemma find_append_some:
  "find P xs = Some x \<Longrightarrow> find P (xs @ ys) = Some x"
  by (induction xs) (auto split: if_splits)

lemma createEntity_invariant:
  assumes inv: "store_invariant g"
  shows "store_invariant (snd (createEntity validate g props ty owner actor d))"
proof (cases "validate ty props")
  case False
  with inv show ?thesis by (simp add: createEntity_def)
next
  case True
  let ?e = "\<lparr>metadata = \<lparr>recordId = \<lparr>entity_id = (owner, next_uuid g), edition = clock g\<rparr>,
                          entityTypeId = ty\<rparr>, properties = props\<rparr>"
  let ?v = "open_version g ?e None (default_decision g d)"
  have g': "snd (createEntity validate g props ty owner actor d) =
      \<lparr>versions = versions g @ [?v], clock = Suc (clock g), next_uuid = Suc (next_uuid g)\<rparr>"
    using True by (simp add: createEntity_def commit_def Let_def)
  from inv have wf: "\<forall>x \<in> set (versions g). well_formed_version (clock g) (next_uuid g) x"
    and ok: "\<forall>e. temporal_ok (versions g) e"
    unfolding store_invariant_iff by blast+
  have idv: "identity ?v = (owner, next_uuid g)" by (simp add: identity_def open_version_def)
  have wf': "\<forall>x \<in> set (versions g). well_formed_version (Suc (clock g)) (next_uuid g) x"
    using wf wf_mono [of "clock g" "next_uuid g" _ "Suc (clock g)" "next_uuid g"] by auto
  have past: "\<forall>x \<in> set (versions g). identity x = identity ?v \<longrightarrow>
      (\<exists>b. limit (interval_end (transaction x)) = Some b \<and> b \<le> clock g)"
    using wf_fresh [OF wf, of owner] idv by simp
  have tr: "transaction ?v = \<lparr>interval_start = Inclusive (clock g), interval_end = Unbounded\<rparr>"
    by (simp add: open_version_def)
  have fresh: "snd (identity ?v) < Suc (next_uuid g)" using idv by simp
  from invariant_after_open [OF wf' ok past tr fresh] show ?thesis unfolding g' by simp
qed

lemma createLinkEntity_cases:
  "createLinkEntity validate g owner lt l r props actor = (res, g') \<Longrightarrow>
     (g' = g \<and> (\<exists>err. res = Inl err)) \<or>
     (\<exists>lv rv.
        current g l = Some lv \<and> current g r = Some rv \<and>
        entityTypeId (metadata (payload lv)) \<in> set (allowedLeftTypes lt) \<and>
        entityTypeId (metadata (payload rv)) \<in> set (allowedRightTypes lt) \<and>
        res = Inr \<lparr>metadata = \<lparr>recordId = \<lparr>entity_id = (owner, next_uuid g), edition = clock g\<rparr>,
                                 entityTypeId = schema_id lt\<rparr>,
                    properties = props,
                    linkData = \<lparr>leftEntityId = l, rightEntityId = r\<rparr>\<rparr> \<and>
        g' = \<lparr>versions = versions g @
                 [open_version g
                    \<lparr>metadata = \<lparr>recordId = \<lparr>entity_id = (owner, next_uuid g), edition = clock g\<rparr>,
                                 entityTypeId = schema_id lt\<rparr>,
                     properties = props\<rparr>
                    (Some \<lparr>leftEntityId = l, rightEntityId = r\<rparr>) (default_decision g None)],
              clock = Suc (clock g), next_uuid = Suc (next_uuid g)\<rparr>)"
  by (auto simp: createLinkEntity_def commit_def Let_def split: if_splits option.splits)

lemma createLinkEntity_invariant:
  assumes inv: "store_invariant g"
  shows "store_invariant (snd (createLinkEntity validate g owner lt l r props actor))"
proof -
  obtain res g' where c: "createLinkEntity validate g owner lt l r props actor = (res, g')"
    by (cases "createLinkEntity validate g owner lt l r props actor") auto
  from createLinkEntity_cases [OF c] show ?thesis
  proof
    assume "g' = g \<and> (\<exists>err. res = Inl err)"
    with inv c show ?thesis by simp
  next
    let ?e = "\<lparr>metadata = \<lparr>recordId = \<lparr>entity_id = (owner, next_uuid g), edition = clock g\<rparr>,
                          entityTypeId = schema_id lt\<rparr>, properties = props\<rparr>"
    let ?v = "open_version g ?e (Some \<lparr>leftEntityId = l, rightEntityId = r\<rparr>) (default_decision g None)"
    assume "\<exists>lv rv.
        current g l = Some lv \<and> current g r = Some rv \<and>
        entityTypeId (metadata (payload lv)) \<in> set (allowedLeftTypes lt) \<and>
        entityTypeId (metadata (payload rv)) \<in> set (allowedRightTypes lt) \<and>
        res = Inr \<lparr>metadata = \<lparr>recordId = \<lparr>entity_id = (owner, next_uuid g), edition = clock g\<rparr>,
                                 entityTypeId = schema_id lt\<rparr>,
                    properties = props,
                    linkData = \<lparr>leftEntityId = l, rightEntityId = r\<rparr>\<rparr> \<and>
        g' = \<lparr>versions = versions g @ [?v], clock = Suc (clock g), next_uuid = Suc (next_uuid g)\<rparr>"
    then have g': "g' = \<lparr>versions = versions g @ [?v], clock = Suc (clock g), next_uuid = Suc (next_uuid g)\<rparr>"
      by blast
    from inv have wf: "\<forall>x \<in> set (versions g). well_formed_version (clock g) (next_uuid g) x"
      and ok: "\<forall>e. temporal_ok (versions g) e"
      unfolding store_invariant_iff by blast+
    have idv: "identity ?v = (owner, next_uuid g)" by (simp add: identity_def open_version_def)
    have wf': "\<forall>x \<in> set (versions g). well_formed_version (Suc (clock g)) (next_uuid g) x"
      using wf wf_mono [of "clock g" "next_uuid g" _ "Suc (clock g)" "next_uuid g"] by auto
    have past: "\<forall>x \<in> set (versions g). identity x = identity ?v \<longrightarrow>
        (\<exists>b. limit (interval_end (transaction x)) = Some b \<and> b \<le> clock g)"
      using wf_fresh [OF wf, of owner] idv by simp
    have tr: "transaction ?v = \<lparr>interval_start = Inclusive (clock g), interval_end = Unbounded\<rparr>"
      by (simp add: open_version_def)
    have fresh: "snd (identity ?v) < Suc (next_uuid g)" using idv by simp
    from invariant_after_open [OF wf' ok past tr fresh] show ?thesis using c g' by simp
  qed
qed

lemma archiveEntity_invariant:
  assumes inv: "store_invariant g"
  shows "store_invariant (snd (archiveEntity g eid actor))"
proof (cases "close_version eid (clock g) (versions g)")
  case None
  with inv show ?thesis by (simp add: archiveEntity_def)
next
  case (Some closed)
  have g': "snd (archiveEntity g eid actor) =
      \<lparr>versions = closed, clock = Suc (clock g), next_uuid = next_uuid g\<rparr>"
    using Some by (simp add: archiveEntity_def commit_def)
  from invariant_after_close(1,2) [OF inv Some] show ?thesis
    unfolding g' store_invariant_iff by simp
qed

lemma updateEntity_cases:
  "updateEntity validate g eid props actor = (res, g') \<Longrightarrow>
     (g' = g \<and> (\<exists>err. res = Inl err)) \<or>
     (\<exists>old closed.
        current g eid = Some old \<and>
        close_version eid (clock g) (versions g) = Some closed \<and>
        res = Inr \<lparr>metadata = (metadata (payload old))
                      \<lparr>recordId := \<lparr>entity_id = eid, edition = clock g\<rparr>\<rparr>,
                    properties = props\<rparr> \<and>
        g' = \<lparr>versions = closed @
                 [open_version g
                    \<lparr>metadata = (metadata (payload old))
                       \<lparr>recordId := \<lparr>entity_id = eid, edition = clock g\<rparr>\<rparr>,
                     properties = props\<rparr>
                    (link old) (default_decision g None)],
              clock = Suc (clock g), next_uuid = next_uuid g\<rparr>)"
  by (auto simp: updateEntity_def commit_def Let_def split: if_splits option.splits)

lemma updateEntity_invariant_and_supersedes:
  assumes inv: "store_invariant g"
    and u: "updateEntity validate g eid props actor = (res, g')"
  shows "store_invariant g'"
    and "\<forall>e. res = Inr e \<longrightarrow>
           (\<exists>old new.
              current g eid = Some old \<and>
              closed_at (clock g) old \<in> set (versions g') \<and>
              interval_end (transaction (closed_at (clock g) old)) = Exclusive (clock g) \<and>
              current g' eid = Some new \<and> payload new = e \<and>
              interval_start (transaction new) = Inclusive (clock g))"
proof -
  from updateEntity_cases [OF u]
  have "store_invariant g' \<and> (\<forall>e. res = Inr e \<longrightarrow>
           (\<exists>old new.
              current g eid = Some old \<and>
              closed_at (clock g) old \<in> set (versions g') \<and>
              interval_end (transaction (closed_at (clock g) old)) = Exclusive (clock g) \<and>
              current g' eid = Some new \<and> payload new = e \<and>
              interval_start (transaction new) = Inclusive (clock g)))"
  proof
    assume "g' = g \<and> (\<exists>err. res = Inl err)"
    with inv show ?thesis by auto
  next
    assume "\<exists>old closed.
        current g eid = Some old \<and>
        close_version eid (clock g) (versions g) = Some closed \<and>
        res = Inr \<lparr>metadata = (metadata (payload old))
                      \<lparr>recordId := \<lparr>entity_id = eid, edition = clock g\<rparr>\<rparr>,
                    properties = props\<rparr> \<and>
        g' = \<lparr>versions = closed @
                 [open_version g
                    \<lparr>metadata = (metadata (payload old))
                       \<lparr>recordId := \<lparr>entity_id = eid, edition = clock g\<rparr>\<rparr>,
                     properties = props\<rparr>
                    (link old) (default_decision g None)],
              clock = Suc (clock g), next_uuid = next_uuid g\<rparr>"
    then obtain old closed where cur: "current g eid = Some old"
      and cl: "close_version eid (clock g) (versions g) = Some closed"
      and res: "res = Inr \<lparr>metadata = (metadata (payload old))
                      \<lparr>recordId := \<lparr>entity_id = eid, edition = clock g\<rparr>\<rparr>,
                    properties = props\<rparr>"
      and g': "g' = \<lparr>versions = closed @
                 [open_version g
                    \<lparr>metadata = (metadata (payload old))
                       \<lparr>recordId := \<lparr>entity_id = eid, edition = clock g\<rparr>\<rparr>,
                     properties = props\<rparr>
                    (link old) (default_decision g None)],
              clock = Suc (clock g), next_uuid = next_uuid g\<rparr>"
      by blast
    let ?e = "\<lparr>metadata = (metadata (payload old))
                       \<lparr>recordId := \<lparr>entity_id = eid, edition = clock g\<rparr>\<rparr>,
                     properties = props\<rparr>"
    let ?v = "open_version g ?e (link old) (default_decision g None)"
    note ac = invariant_after_close [OF inv cl]
    have idv: "identity ?v = eid" by (simp add: identity_def open_version_def)
    have tr: "transaction ?v = \<lparr>interval_start = Inclusive (clock g), interval_end = Unbounded\<rparr>"
      by (simp add: open_version_def)
    from ac(4) cur have oldc: "closed_at (clock g) old \<in> set closed" and ido: "identity old = eid"
      by auto
    from ac(1) oldc have "well_formed_version (Suc (clock g)) (next_uuid g) (closed_at (clock g) old)"
      by blast
    then have fresh: "snd (identity ?v) < next_uuid g"
      using idv ido by (simp add: well_formed_version_def)
    have past: "\<forall>x \<in> set closed. identity x = identity ?v \<longrightarrow>
        (\<exists>b. limit (interval_end (transaction x)) = Some b \<and> b \<le> clock g)"
      using ac(3) idv by simp
    from invariant_after_open [OF ac(1) ac(2) past tr fresh] have i': "store_invariant g'"
      unfolding g' by simp
    have noopen: "\<forall>x \<in> set closed. \<not> (identity x = eid \<and> is_open x)"
    proof
      fix x assume "x \<in> set closed"
      with ac(3) show "\<not> (identity x = eid \<and> is_open x)" by (auto simp: is_open_def)
    qed
    have "current g' eid = find (\<lambda>v. identity v = eid \<and> is_open v) [?v]"
      unfolding current_def g' using find_append_none [OF noopen] by simp
    also have "\<dots> = Some ?v" using idv by (simp add: is_open_def open_version_def)
    finally have cur': "current g' eid = Some ?v" .
    have "closed_at (clock g) old \<in> set (versions g')" using oldc g' by simp
    moreover have "interval_end (transaction (closed_at (clock g) old)) = Exclusive (clock g)"
      by (simp add: closed_at_def)
    moreover have "payload ?v = ?e" by (simp add: open_version_def)
    moreover have "interval_start (transaction ?v) = Inclusive (clock g)" by (simp add: tr)
    ultimately show ?thesis using i' cur cur' res by blast
  qed
  then show "store_invariant g'"
    and "\<forall>e. res = Inr e \<longrightarrow>
           (\<exists>old new.
              current g eid = Some old \<and>
              closed_at (clock g) old \<in> set (versions g') \<and>
              interval_end (transaction (closed_at (clock g) old)) = Exclusive (clock g) \<and>
              current g' eid = Some new \<and> payload new = e \<and>
              interval_start (transaction new) = Inclusive (clock g))"
    by blast+
qed

lemma pairwise_disjoint_nth:
  "pairwise_disjoint is \<longleftrightarrow>
     (\<forall>j < length is. \<forall>i < j. \<not> overlaps (is ! i) (is ! j))"
proof (induction "is")
  case Nil
  then show ?case by simp
next
  case (Cons a as)
  have "(\<forall>j < length (a # as). \<forall>i < j. \<not> overlaps ((a # as) ! i) ((a # as) ! j)) \<longleftrightarrow>
        (\<forall>j < length as. \<not> overlaps a (as ! j)) \<and>
        (\<forall>j < length as. \<forall>i < j. \<not> overlaps (as ! i) (as ! j))"
    (is "?L \<longleftrightarrow> ?A \<and> ?B")
  proof
    assume L: ?L
    have ?A
    proof (intro allI impI)
      fix j assume "j < length as"
      then have "Suc j < length (a # as)" and "0 < Suc j" by simp_all
      with L have "\<not> overlaps ((a # as) ! 0) ((a # as) ! Suc j)" by blast
      then show "\<not> overlaps a (as ! j)" by simp
    qed
    moreover have ?B
    proof (intro allI impI)
      fix j i assume "j < length as" "i < j"
      then have "Suc j < length (a # as)" and "Suc i < Suc j" by simp_all
      with L have "\<not> overlaps ((a # as) ! Suc i) ((a # as) ! Suc j)" by blast
      then show "\<not> overlaps (as ! i) (as ! j)" by simp
    qed
    ultimately show "?A \<and> ?B" by blast
  next
    assume AB: "?A \<and> ?B"
    show ?L
    proof (intro allI impI)
      fix j i assume j: "j < length (a # as)" and i: "i < j"
      then obtain j' where j': "j = Suc j'" "j' < length as" by (cases j) auto
      show "\<not> overlaps ((a # as) ! i) ((a # as) ! j)"
      proof (cases i)
        case 0
        with AB j' show ?thesis by simp
      next
        case (Suc i')
        with i j' have "i' < j'" by simp
        with AB j' Suc show ?thesis by simp
      qed
    qed
  qed
  moreover have "list_all (\<lambda>j. \<not> overlaps a j) as \<longleftrightarrow> (\<forall>j < length as. \<not> overlaps a (as ! j))"
    by (simp add: list_all_length)
  ultimately show ?case using Cons.IH by simp
qed

lemma updateEntity_invariant:
  assumes inv: "store_invariant g"
  shows "store_invariant (snd (updateEntity validate g eid props actor))"
proof -
  obtain res g' where u: "updateEntity validate g eid props actor = (res, g')"
    by (cases "updateEntity validate g eid props actor") auto
  from updateEntity_invariant_and_supersedes(1) [OF inv u] u show ?thesis by simp
qed

lemma apply_mutation_invariant:
  "store_invariant g \<Longrightarrow> store_invariant (apply_mutation validate m g)"
  by (cases m)
    (simp_all add: createEntity_invariant updateEntity_invariant archiveEntity_invariant
      createLinkEntity_invariant)

lemma run_history_invariant:
  "store_invariant g \<Longrightarrow> store_invariant (run_history validate ms g)"
  unfolding run_history_def
  by (induction ms arbitrary: g) (simp_all add: apply_mutation_invariant)

text \<open>
  Every store that a history of mutations builds from the empty store satisfies the
  temporal invariant, for every entity id.
\<close>

lemma temporal_invariant_reachable:
  "temporal_ok (versions (run_history validate ms empty_store)) eid"
  by (rule store_invariant_temporal) (rule run_history_invariant [OF store_invariant_empty])

text \<open>
  C8. In a store that satisfies the store invariant, the transaction-time intervals of the
  versions of every entity id are pairwise non-overlapping and at most one of them is
  unbounded above. The invariant is preserved by \<open>createEntity\<close>, \<open>updateEntity\<close>,
  \<open>archiveEntity\<close> and \<open>createLinkEntity\<close>, whether they succeed or fail. A successful
  \<open>updateEntity\<close> closes the version that was open with the upper bound \<open>Exclusive t\<close>,
  where \<open>Inclusive t\<close> is the lower bound of the superseding version, which is the open
  version afterwards.
\<close>

theorem temporal_invariant_preserved:
  assumes inv: "store_invariant g"
  shows "(\<forall>eid. temporal_ok (versions g) eid) \<and>
         store_invariant (snd (createEntity validate g props type_id owner actor d)) \<and>
         store_invariant (snd (updateEntity validate g eid props actor)) \<and>
         store_invariant (snd (archiveEntity g eid actor)) \<and>
         store_invariant (snd (createLinkEntity validate g owner linkType left_id right_id props actor)) \<and>
         (\<forall>e g'. updateEntity validate g eid props actor = (Inr e, g') \<longrightarrow>
            (\<exists>old new.
               current g eid = Some old \<and>
               closed_at (clock g) old \<in> set (versions g') \<and>
               interval_end (transaction (closed_at (clock g) old)) = Exclusive (clock g) \<and>
               current g' eid = Some new \<and> payload new = e \<and>
               interval_start (transaction new) = Inclusive (clock g)))"
proof (intro conjI allI impI)
  fix eid0
  show "temporal_ok (versions g) eid0" using inv by (rule store_invariant_temporal)
next
  show "store_invariant (snd (createEntity validate g props type_id owner actor d))"
    using inv by (rule createEntity_invariant)
next
  obtain res g' where u: "updateEntity validate g eid props actor = (res, g')"
    by (cases "updateEntity validate g eid props actor") auto
  from updateEntity_invariant_and_supersedes(1) [OF inv u] u
  show "store_invariant (snd (updateEntity validate g eid props actor))" by simp
next
  show "store_invariant (snd (archiveEntity g eid actor))"
    using inv by (rule archiveEntity_invariant)
next
  show "store_invariant (snd (createLinkEntity validate g owner linkType left_id right_id props actor))"
    using inv by (rule createLinkEntity_invariant)
next
  fix e g'
  assume u: "updateEntity validate g eid props actor = (Inr e, g')"
  from updateEntity_invariant_and_supersedes(2) [OF inv u]
  show "\<exists>old new.
               current g eid = Some old \<and>
               closed_at (clock g) old \<in> set (versions g') \<and>
               interval_end (transaction (closed_at (clock g) old)) = Exclusive (clock g) \<and>
               current g' eid = Some new \<and> payload new = e \<and>
               interval_start (transaction new) = Inclusive (clock g)"
    by blast
qed

lemmas store_eval = updateEntity_def createEntity_def createLinkEntity_def archiveEntity_def
  accept_all_def empty_store_def commit_def open_version_def default_decision_def
  current_def identity_def is_open_def closed_at_def Let_def

theorem temporal_invariant_preserved_witness:
  "store_invariant empty_store \<and>
   store_invariant store_with_user \<and>
   store_invariant store_after_update \<and>
   temporal_ok (versions store_after_update) (1, 0) \<and>
   map transaction (versions store_after_update) =
     [\<lparr>interval_start = Inclusive 0, interval_end = Exclusive 1\<rparr>,
      \<lparr>interval_start = Inclusive 1, interval_end = Unbounded\<rparr>]"
proof -
  have i0: "store_invariant empty_store" by (rule store_invariant_empty)
  from temporal_invariant_preserved [OF i0, where validate = accept_all
      and props = "[(''shortname'', ''alice'')]"
      and type_id = "''https://hash.ai/@hash/types/entity-type/user/v/1''"
      and owner = 1 and actor = 1 and d = None]
  have i1: "store_invariant store_with_user" by (simp add: store_with_user_def)
  from temporal_invariant_preserved [OF i1, where validate = accept_all and eid = "(1, 0)"
      and props = "[(''shortname'', ''al'')]" and actor = 1]
  have i2: "store_invariant store_after_update" by (simp add: store_after_update_def)
  from temporal_invariant_preserved [OF i2] have t: "temporal_ok (versions store_after_update) (1, 0)"
    by blast
  have "map transaction (versions store_after_update) =
     [\<lparr>interval_start = Inclusive 0, interval_end = Exclusive 1\<rparr>,
      \<lparr>interval_start = Inclusive 1, interval_end = Unbounded\<rparr>]"
    by (simp add: store_after_update_def store_with_user_def store_eval)
  with i0 i1 i2 t show ?thesis by simp
qed

section \<open>The org membership round trip\<close>

lemma current_after_append:
  "current g eid = Some v \<Longrightarrow>
     current \<lparr>versions = versions g @ vs, clock = c, next_uuid = n\<rparr> eid = Some v"
  by (simp add: current_def find_append_some)

text \<open>
  C4. When \<open>createOrgMembership\<close> succeeds for the user entity id and the org entity id,
  the link entity of the membership has the user id as its left and the org id as its
  right entity; the entities stored under the two ids are the same after the creation as
  before; and \<open>getOrgMembershipUser\<close> and \<open>getOrgMembershipOrg\<close> on the resulting store
  return the user read from the entity stored at the user id and the org read from the
  entity stored at the org id. Where the org-membership link type admits exactly the user
  type on the left and the org type on the right, both reads succeed.
\<close>

theorem org_membership_round_trip:
  assumes c: "createOrgMembership st validate ctx uid oid actor = (Inr m, ctx')"
  shows "leftEntityId (linkData (linkEntity m)) = uid \<and>
         rightEntityId (linkData (linkEntity m)) = oid \<and>
         (\<exists>eu eo.
            getLatestEntityById ctx uid = (Inr eu, ctx) \<and>
            getLatestEntityById ctx oid = (Inr eo, ctx) \<and>
            getLatestEntityById ctx' uid = (Inr eu, ctx') \<and>
            getLatestEntityById ctx' oid = (Inr eo, ctx') \<and>
            getOrgMembershipUser st ctx' m = (getUserFromEntity st eu, ctx') \<and>
            getOrgMembershipOrg st ctx' m = (getOrgFromEntity st eo, ctx') \<and>
            (allowedLeftTypes (linkEntityType_orgMembership st) = [schema_id (entityType_user st)] \<longrightarrow>
               getOrgMembershipUser st ctx' m = (Inr \<lparr>user_entity = eu\<rparr>, ctx')) \<and>
            (allowedRightTypes (linkEntityType_orgMembership st) = [schema_id (entityType_org st)] \<longrightarrow>
               getOrgMembershipOrg st ctx' m = (Inr \<lparr>org_entity = eo\<rparr>, ctx')))"
proof -
  let ?lt = "linkEntityType_orgMembership st"
  obtain res g' where cl: "createLinkEntity validate ctx (extractEntityUuidFromEntityId oid) ?lt uid oid [] actor = (res, g')"
    by (cases "createLinkEntity validate ctx (extractEntityUuidFromEntityId oid) ?lt uid oid [] actor") auto
  from c cl have notfail: "\<not> (\<exists>err. res = Inl err)" and ctx': "ctx' = g'"
    by (auto simp: createOrgMembership_def split: sum.splits)
  from createLinkEntity_cases [OF cl] notfail obtain lv rv where
    lv: "current ctx uid = Some lv" and rv: "current ctx oid = Some rv"
    and lt: "entityTypeId (metadata (payload lv)) \<in> set (allowedLeftTypes ?lt)"
    and rt: "entityTypeId (metadata (payload rv)) \<in> set (allowedRightTypes ?lt)"
    and res: "res = Inr \<lparr>metadata = \<lparr>recordId = \<lparr>entity_id = (extractEntityUuidFromEntityId oid, next_uuid ctx),
                                                    edition = clock ctx\<rparr>,
                                       entityTypeId = schema_id ?lt\<rparr>,
                          properties = [],
                          linkData = \<lparr>leftEntityId = uid, rightEntityId = oid\<rparr>\<rparr>"
    and g': "g' = \<lparr>versions = versions ctx @
                 [open_version ctx
                    \<lparr>metadata = \<lparr>recordId = \<lparr>entity_id = (extractEntityUuidFromEntityId oid, next_uuid ctx),
                                              edition = clock ctx\<rparr>,
                                 entityTypeId = schema_id ?lt\<rparr>,
                     properties = []\<rparr>
                    (Some \<lparr>leftEntityId = uid, rightEntityId = oid\<rparr>) (default_decision ctx None)],
              clock = Suc (clock ctx), next_uuid = Suc (next_uuid ctx)\<rparr>"
    by blast
  let ?created = "\<lparr>metadata = \<lparr>recordId = \<lparr>entity_id = (extractEntityUuidFromEntityId oid, next_uuid ctx),
                                                    edition = clock ctx\<rparr>,
                                       entityTypeId = schema_id ?lt\<rparr>,
                          properties = [],
                          linkData = \<lparr>leftEntityId = uid, rightEntityId = oid\<rparr>\<rparr>"
  from c cl res have "getOrgMembershipFromLinkEntity st ?created = Inr m"
    by (simp add: createOrgMembership_def)
  then have m: "m = \<lparr>linkEntity = ?created\<rparr>"
    by (simp add: getOrgMembershipFromLinkEntity_def)
  have lv': "current ctx' uid = Some lv" and rv': "current ctx' oid = Some rv"
    unfolding ctx' g' using lv rv by (simp_all add: current_after_append)
  let ?eu = "payload lv" and ?eo = "payload rv"
  have 1: "leftEntityId (linkData (linkEntity m)) = uid" "rightEntityId (linkData (linkEntity m)) = oid"
    by (simp_all add: m)
  have 2: "getLatestEntityById ctx uid = (Inr ?eu, ctx)" "getLatestEntityById ctx oid = (Inr ?eo, ctx)"
    "getLatestEntityById ctx' uid = (Inr ?eu, ctx')" "getLatestEntityById ctx' oid = (Inr ?eo, ctx')"
    using lv rv lv' rv' by (simp_all add: getLatestEntityById_def)
  have 3: "getOrgMembershipUser st ctx' m = (getUserFromEntity st ?eu, ctx')"
    using 2(3) 1(1) by (simp add: getOrgMembershipUser_def getLinkEntityLeftEntity_def)
  have 4: "getOrgMembershipOrg st ctx' m = (getOrgFromEntity st ?eo, ctx')"
    using 2(4) 1(2) by (simp add: getOrgMembershipOrg_def getLinkEntityRightEntity_def)
  have 5: "allowedLeftTypes ?lt = [schema_id (entityType_user st)] \<longrightarrow>
      getOrgMembershipUser st ctx' m = (Inr \<lparr>user_entity = ?eu\<rparr>, ctx')"
    using lt 3 by (auto simp: getUserFromEntity_def)
  have 6: "allowedRightTypes ?lt = [schema_id (entityType_org st)] \<longrightarrow>
      getOrgMembershipOrg st ctx' m = (Inr \<lparr>org_entity = ?eo\<rparr>, ctx')"
    using rt 4 by (auto simp: getOrgFromEntity_def)
  from 1 2 3 4 5 6 show ?thesis by blast
qed


theorem org_membership_round_trip_witness:
  "\<exists>m ctx'.
     createOrgMembership hash_system_types accept_all store_with_user_and_org (1, 0) (2, 1) 1 =
       (Inr m, ctx') \<and>
     leftEntityId (linkData (linkEntity m)) = (1, 0) \<and>
     rightEntityId (linkData (linkEntity m)) = (2, 1) \<and>
     (\<exists>u. getOrgMembershipUser hash_system_types ctx' m = (Inr u, ctx') \<and>
          properties (user_entity u) = [(''shortname'', ''alice'')]) \<and>
     (\<exists>w. getOrgMembershipOrg hash_system_types ctx' m = (Inr w, ctx') \<and>
          properties (org_entity w) = [(''shortname'', ''acme'')])"
proof -
  have "\<exists>m. fst (createOrgMembership hash_system_types accept_all store_with_user_and_org (1, 0) (2, 1) 1) = Inr m"
    by (simp add: createOrgMembership_def getOrgMembershipFromLinkEntity_def hash_system_types_def
        extractEntityUuidFromEntityId_def store_with_user_and_org_def store_with_user_def store_eval)
  then obtain m ctx' where c:
    "createOrgMembership hash_system_types accept_all store_with_user_and_org (1, 0) (2, 1) 1 = (Inr m, ctx')"
    by (cases "createOrgMembership hash_system_types accept_all store_with_user_and_org (1, 0) (2, 1) 1") auto
  from org_membership_round_trip [OF c] obtain eu eo where
    l: "leftEntityId (linkData (linkEntity m)) = (1, 0)"
    and r: "rightEntityId (linkData (linkEntity m)) = (2, 1)"
    and eu: "getLatestEntityById store_with_user_and_org (1, 0) = (Inr eu, store_with_user_and_org)"
    and eo: "getLatestEntityById store_with_user_and_org (2, 1) = (Inr eo, store_with_user_and_org)"
    and u: "allowedLeftTypes (linkEntityType_orgMembership hash_system_types) =
              [schema_id (entityType_user hash_system_types)] \<longrightarrow>
            getOrgMembershipUser hash_system_types ctx' m = (Inr \<lparr>user_entity = eu\<rparr>, ctx')"
    and w: "allowedRightTypes (linkEntityType_orgMembership hash_system_types) =
              [schema_id (entityType_org hash_system_types)] \<longrightarrow>
            getOrgMembershipOrg hash_system_types ctx' m = (Inr \<lparr>org_entity = eo\<rparr>, ctx')"
    by blast
  from u have u': "getOrgMembershipUser hash_system_types ctx' m = (Inr \<lparr>user_entity = eu\<rparr>, ctx')"
    by (simp add: hash_system_types_def)
  from w have w': "getOrgMembershipOrg hash_system_types ctx' m = (Inr \<lparr>org_entity = eo\<rparr>, ctx')"
    by (simp add: hash_system_types_def)
  from eu have pu: "properties eu = [(''shortname'', ''alice'')]"
    by (auto simp: getLatestEntityById_def store_with_user_and_org_def store_with_user_def store_eval)
  from eo have po: "properties eo = [(''shortname'', ''acme'')]"
    by (auto simp: getLatestEntityById_def store_with_user_and_org_def store_with_user_def store_eval)
  from c l r u' w' pu po show ?thesis by simp
qed


section \<open>Properties of the subgraph resolver\<close>

lemma traverse_follows_positive_depth:
  "e \<in> set (snd (traverse view ax d frontier)) \<Longrightarrow> 0 < d (edge_kind e)"
proof (induction view ax d frontier rule: traverse.induct)
  case (1 view ax d frontier)
  show ?case
  proof (cases "frontier = []")
    case True
    then have "traverse view ax d frontier = ([], [])" by (subst traverse.simps) simp
    with "1.prems" show ?thesis by simp
  next
    case False
    from "1.prems" False obtain k where k: "k \<in> set edge_kinds" "d k \<noteq> 0"
      and e: "e \<in> set (filter (\<lambda>e. edge_kind e = k \<and> edge_source e \<in> set frontier) (view_edges view)) \<or>
              e \<in> set (snd (traverse view ax (d(k := d k - 1))
                     (filter (pinned_id view ax)
                        (map edge_target
                           (filter (\<lambda>e. edge_kind e = k \<and> edge_source e \<in> set frontier) (view_edges view))))))"
      by (auto simp: traverse.simps [of view ax d frontier] Let_def split: if_splits)
    from e show ?thesis
    proof
      assume "e \<in> set (filter (\<lambda>e. edge_kind e = k \<and> edge_source e \<in> set frontier) (view_edges view))"
      with k show ?thesis by simp
    next
      assume "e \<in> set (snd (traverse view ax (d(k := d k - 1))
                     (filter (pinned_id view ax)
                        (map edge_target
                           (filter (\<lambda>e. edge_kind e = k \<and> edge_source e \<in> set frontier) (view_edges view))))))"
      from "1.IH" [OF False k refl refl this] have "0 < (d(k := d k - 1)) (edge_kind e)" .
      then show ?thesis by (auto split: if_splits)
    qed
  qed
qed

lemma traverse_follows_view_edges:
  "e \<in> set (snd (traverse view ax d frontier)) \<Longrightarrow> e \<in> set (view_edges view)"
proof (induction view ax d frontier rule: traverse.induct)
  case (1 view ax d frontier)
  show ?case
  proof (cases "frontier = []")
    case True
    then have "traverse view ax d frontier = ([], [])" by (subst traverse.simps) simp
    with "1.prems" show ?thesis by simp
  next
    case False
    from "1.prems" False obtain k where k: "k \<in> set edge_kinds" "d k \<noteq> 0"
      and e: "e \<in> set (filter (\<lambda>e. edge_kind e = k \<and> edge_source e \<in> set frontier) (view_edges view)) \<or>
              e \<in> set (snd (traverse view ax (d(k := d k - 1))
                     (filter (pinned_id view ax)
                        (map edge_target
                           (filter (\<lambda>e. edge_kind e = k \<and> edge_source e \<in> set frontier) (view_edges view))))))"
      by (auto simp: traverse.simps [of view ax d frontier] Let_def split: if_splits)
    from e show ?thesis
    proof
      assume "e \<in> set (filter (\<lambda>e. edge_kind e = k \<and> edge_source e \<in> set frontier) (view_edges view))"
      then show ?thesis by simp
    next
      assume "e \<in> set (snd (traverse view ax (d(k := d k - 1))
                     (filter (pinned_id view ax)
                        (map edge_target
                           (filter (\<lambda>e. edge_kind e = k \<and> edge_source e \<in> set frontier) (view_edges view))))))"
      from "1.IH" [OF False k refl refl this] show ?thesis .
    qed
  qed
qed

text \<open>
  C9. In every subgraph that \<open>resolve\<close> produces, for whatever view, root filter, resolve
  depths and temporal axes, both the source and the target of every edge are among the
  subgraph's vertices.
\<close>

theorem resolve_closure:
  "\<forall>e \<in> set (edges (resolve view rootFilter resolveDepths temporalAxes)).
     edge_source e \<in> set (vertices (resolve view rootFilter resolveDepths temporalAxes)) \<and>
     edge_target e \<in> set (vertices (resolve view rootFilter resolveDepths temporalAxes))"
  by (simp add: resolve_def Let_def)

theorem resolve_closure_witness:
  "vertices (resolve ontology_view is_employee two_up at_five) =
     [OntologyVertexId ''employee'' 1, OntologyVertexId ''person'' 1, OntologyVertexId ''agent'' 1] \<and>
   edges (resolve ontology_view is_employee two_up at_five) =
     [type_edge ''employee'' InheritsFrom ''person'', type_edge ''person'' InheritsFrom ''agent''] \<and>
   list_all
     (\<lambda>e. edge_source e \<in> set (vertices (resolve ontology_view is_employee two_up at_five)) \<and>
          edge_target e \<in> set (vertices (resolve ontology_view is_employee two_up at_five)))
     (edges (resolve ontology_view is_employee two_up at_five))"
proof -
  have v: "vertices (resolve ontology_view is_employee two_up at_five) =
     [OntologyVertexId ''employee'' 1, OntologyVertexId ''person'' 1, OntologyVertexId ''agent'' 1]"
    by code_simp
  have e: "edges (resolve ontology_view is_employee two_up at_five) =
     [type_edge ''employee'' InheritsFrom ''person'', type_edge ''person'' InheritsFrom ''agent'']"
    by code_simp
  from resolve_closure [of ontology_view is_employee two_up at_five]
  have "list_all
     (\<lambda>e. edge_source e \<in> set (vertices (resolve ontology_view is_employee two_up at_five)) \<and>
          edge_target e \<in> set (vertices (resolve ontology_view is_employee two_up at_five)))
     (edges (resolve ontology_view is_employee two_up at_five))"
    unfolding list_all_iff .
  with v e show ?thesis by blast
qed

end
